theory Spec2Isabelle
  imports Main
begin

section \<open>Memory model\<close>

text \<open>
  The allocator hands out blocks of slots. A slot is either raw storage (\<open>None\<close>) or
  holds a live value (\<open>Some v\<close>). Address \<open>0\<close> is \<open>nullptr\<close>. A pointer into a
  buffer is a block address together with a slot index, so \<open>_data + i\<close> is
  \<open>(_data, i)\<close>. Vector objects live in a store of their own, indexed by the location
  of the object, so that \<open>this\<close> and \<open>other\<close> may name the same object.
\<close>

type_synonym addr = nat
type_synonym vid = nat
type_synonym ptr = "addr \<times> nat"

text \<open>The three data members of \<open>vector_t\<close>: \<open>_data\<close>, \<open>_size\<close>, \<open>_capacity\<close>.\<close>

record vector_t =
  data_m :: addr
  size_m :: nat
  capacity_m :: nat

record 'a state =
  blocks :: "addr \<Rightarrow> 'a option list option"
  next_addr :: addr
  avail :: nat
  n_alloc :: nat
  n_dealloc :: nat
  vecs :: "vid \<Rightarrow> vector_t"

text \<open>
  \<open>BadAlloc\<close> is the exception of \<open>allocate\<close>; \<open>Terminate\<close> is an exception leaving a
  \<open>noexcept\<close> function; the other three are undefined behaviour: an access outside a
  live block, a read or destruction of raw storage, and a \<open>deallocate\<close> whose pointer
  or size does not match an allocation. An error carries the state it was raised in.
\<close>

datatype error = BadAlloc | Terminate | OutOfBlock | Uninitialized | BadFree

type_synonym 'a result = "(error \<times> 'a state) + 'a state"

text \<open>\<open>std::size_t\<close> arithmetic wraps modulo \<open>2 ^ 64\<close>.\<close>

definition size_t :: "nat \<Rightarrow> nat" where
  "size_t n = n mod 2 ^ 64"

definition block_at :: "'a state \<Rightarrow> addr \<Rightarrow> 'a option list option" where
  "block_at s p = (if p = 0 then None else blocks s p)"

text \<open>
  \<open>_allocator.allocate(n)\<close>: a fresh block of \<open>n\<close> raw slots, also for \<open>n = 0\<close>
  (\<open>std::allocator\<close> forwards to \<open>operator new\<close>, which answers a request of size zero
  with a pointer of its own); \<open>std::bad_alloc\<close> when fewer than \<open>n\<close> slots are left.
  Addresses are handed out in increasing order and never a second time, so a pointer to
  a deallocated block stays recognisable as dangling.
\<close>

definition allocate :: "'a state \<Rightarrow> nat \<Rightarrow> (error \<times> 'a state) + ('a state \<times> addr)" where
  "allocate s n =
     (if avail s < n then Inl (BadAlloc, s)
      else Inr (s\<lparr>blocks := (blocks s)(next_addr s := Some (replicate n None)),
                  next_addr := Suc (next_addr s),
                  avail := avail s - n,
                  n_alloc := Suc (n_alloc s)\<rparr>, next_addr s))"

text \<open>
  \<open>_allocator.deallocate(p, n)\<close>: forwards to \<open>operator delete\<close>, which does nothing
  for \<open>nullptr\<close>; otherwise \<open>p\<close> must be a live block of exactly \<open>n\<close> slots. The
  values in the block are not destroyed.
\<close>

definition deallocate :: "'a state \<Rightarrow> addr \<Rightarrow> nat \<Rightarrow> 'a result" where
  "deallocate s p n =
     (if p = 0 then Inr s
      else case blocks s p of
             None \<Rightarrow> Inl (BadFree, s)
           | Some b \<Rightarrow>
               if length b = n
               then Inr (s\<lparr>blocks := (blocks s)(p := None),
                           avail := avail s + n,
                           n_dealloc := Suc (n_dealloc s)\<rparr>)
               else Inl (BadFree, s))"

text \<open>\<open>std::construct_at(p + i, v)\<close>: the slot becomes live with value \<open>v\<close>.\<close>

definition construct_at :: "'a state \<Rightarrow> ptr \<Rightarrow> 'a \<Rightarrow> 'a result" where
  "construct_at s q v =
     (case block_at s (fst q) of
        None \<Rightarrow> Inl (OutOfBlock, s)
      | Some b \<Rightarrow>
          if snd q < length b
          then Inr (s\<lparr>blocks := (blocks s)(fst q := Some (b[snd q := Some v]))\<rparr>)
          else Inl (OutOfBlock, s))"

text \<open>\<open>std::destroy_at(p + i)\<close>: the live slot becomes raw storage again.\<close>

definition destroy_at :: "'a state \<Rightarrow> ptr \<Rightarrow> 'a result" where
  "destroy_at s q =
     (case block_at s (fst q) of
        None \<Rightarrow> Inl (OutOfBlock, s)
      | Some b \<Rightarrow>
          if snd q < length b
          then (case b ! snd q of
                  None \<Rightarrow> Inl (Uninitialized, s)
                | Some v \<Rightarrow> Inr (s\<lparr>blocks := (blocks s)(fst q := Some (b[snd q := None]))\<rparr>))
          else Inl (OutOfBlock, s))"

text \<open>Reading \<open>*(p + i)\<close>, as the copy and move constructors of \<open>T\<close> do.\<close>

definition load :: "'a state \<Rightarrow> ptr \<Rightarrow> error + 'a" where
  "load s q =
     (case block_at s (fst q) of
        None \<Rightarrow> Inl OutOfBlock
      | Some b \<Rightarrow>
          if snd q < length b
          then (case b ! snd q of None \<Rightarrow> Inl Uninitialized | Some v \<Rightarrow> Inr v)
          else Inl OutOfBlock)"

text \<open>A \<open>for\<close> loop over the indices in a list; it stops at the first error.\<close>

fun iterate :: "nat list \<Rightarrow> (nat \<Rightarrow> 'a state \<Rightarrow> 'a result) \<Rightarrow> 'a state \<Rightarrow> 'a result" where
  "iterate [] f s = Inr s"
| "iterate (i # js) f s = (case f i s of Inl e \<Rightarrow> Inl e | Inr s' \<Rightarrow> iterate js f s')"

text \<open>\<open>std::destroy_n(p + i, n)\<close>; \<open>std::destroy(first, last)\<close> is the same loop.\<close>

definition destroy_n :: "'a state \<Rightarrow> ptr \<Rightarrow> nat \<Rightarrow> 'a result" where
  "destroy_n s q n = iterate [snd q ..< snd q + n] (\<lambda>i s'. destroy_at s' (fst q, i)) s"

text \<open>
  \<open>std::construct_at(dst + i, *(src + i))\<close> and
  \<open>std::construct_at(dst + i, std::move(src[i]))\<close>: the value of the source slot is
  read and built in the destination slot; the source slot stays live.
\<close>

definition construct_from :: "addr \<Rightarrow> addr \<Rightarrow> nat \<Rightarrow> 'a state \<Rightarrow> 'a result" where
  "construct_from dst src i s =
     (case load s (src, i) of
        Inl e \<Rightarrow> Inl (e, s)
      | Inr v \<Rightarrow> construct_at s (dst, i) v)"

section \<open>The members of \<open>vector_t\<close>\<close>

definition set_data :: "vid \<Rightarrow> addr \<Rightarrow> 'a state \<Rightarrow> 'a state" where
  "set_data this p s = s\<lparr>vecs := (vecs s)(this := (vecs s this)\<lparr>data_m := p\<rparr>)\<rparr>"

definition set_size :: "vid \<Rightarrow> nat \<Rightarrow> 'a state \<Rightarrow> 'a state" where
  "set_size this n s = s\<lparr>vecs := (vecs s)(this := (vecs s this)\<lparr>size_m := n\<rparr>)\<rparr>"

definition set_capacity :: "vid \<Rightarrow> nat \<Rightarrow> 'a state \<Rightarrow> 'a state" where
  "set_capacity this n s = s\<lparr>vecs := (vecs s)(this := (vecs s this)\<lparr>capacity_m := n\<rparr>)\<rparr>"

text \<open>An exception that leaves a \<open>noexcept\<close> function ends the program.\<close>

definition noexcept :: "'a result \<Rightarrow> 'a result" where
  "noexcept r = (case r of Inl (e, s) \<Rightarrow> Inl (if e = BadAlloc then Terminate else e, s) | Inr s \<Rightarrow> Inr s)"

text \<open>\<open>vector_t()\<close>\<close>

definition vector_t_default :: "'a state \<Rightarrow> vid \<Rightarrow> 'a result" where
  "vector_t_default s this =
     Inr (s\<lparr>vecs := (vecs s)(this := \<lparr>data_m = 0, size_m = 0, capacity_m = 0\<rparr>)\<rparr>)"

text \<open>\<open>vector_t(std::size_t s)\<close>; \<open>d\<close> is the value of \<open>T()\<close>.\<close>

definition vector_t_sized :: "'a \<Rightarrow> 'a state \<Rightarrow> vid \<Rightarrow> nat \<Rightarrow> 'a result" where
  "vector_t_sized d s this n =
     (let s1 = set_capacity this n (set_size this n s) in
      case allocate s1 n of
        Inl e \<Rightarrow> Inl e
      | Inr (s2, p) \<Rightarrow>
          let s3 = set_data this p s2 in
          iterate [0 ..< size_m (vecs s3 this)]
            (\<lambda>i s'. construct_at s' (data_m (vecs s' this), i) d) s3)"

text \<open>\<open>vector_t(vector_t const &other)\<close>\<close>

definition vector_t_copy :: "'a state \<Rightarrow> vid \<Rightarrow> vid \<Rightarrow> 'a result" where
  "vector_t_copy s this other =
     (let s1 = set_size this (size_m (vecs s other)) s;
          s2 = set_capacity this (capacity_m (vecs s1 other)) s1 in
      case allocate s2 (capacity_m (vecs s2 other)) of
        Inl e \<Rightarrow> Inl e
      | Inr (s3, p) \<Rightarrow>
          let s4 = set_data this p s3 in
          iterate [0 ..< size_m (vecs s4 this)]
            (\<lambda>i s'. construct_from (data_m (vecs s' this)) (data_m (vecs s' other)) i s') s4)"

text \<open>\<open>vector_t(vector_t &&other) noexcept\<close>\<close>

definition vector_t_move :: "'a state \<Rightarrow> vid \<Rightarrow> vid \<Rightarrow> 'a result" where
  "vector_t_move s this other =
     noexcept
      (let s1 = set_size this (size_m (vecs s other)) s;
           s2 = set_capacity this (capacity_m (vecs s1 other)) s1 in
       case allocate s2 (capacity_m (vecs s2 this)) of
         Inl e \<Rightarrow> Inl e
       | Inr (s3, p) \<Rightarrow>
           let s4 = set_data this p s3;
               s5 = set_data this (data_m (vecs s4 other)) s4;
               s6 = set_data other 0 s5
           in Inr (set_size other 0 s6))"

text \<open>\<open>operator=(vector_t const &other)\<close>\<close>

definition copy_assign :: "'a state \<Rightarrow> vid \<Rightarrow> vid \<Rightarrow> 'a result" where
  "copy_assign s this other =
     (let s1 = set_size this (size_m (vecs s other)) s;
          s2 = set_capacity this (capacity_m (vecs s1 other)) s1 in
      case allocate s2 (capacity_m (vecs s2 this)) of
        Inl e \<Rightarrow> Inl e
      | Inr (s3, p) \<Rightarrow>
          let s4 = set_data this p s3 in
          iterate [0 ..< size_m (vecs s4 this)]
            (\<lambda>i s'. construct_from (data_m (vecs s' this)) (data_m (vecs s' other)) i s') s4)"

text \<open>\<open>operator=(vector_t &&other) noexcept\<close>\<close>

definition move_assign :: "'a state \<Rightarrow> vid \<Rightarrow> vid \<Rightarrow> 'a result" where
  "move_assign s this other =
     noexcept
      (let s1 = set_size this (size_m (vecs s other)) s;
           s2 = set_capacity this (capacity_m (vecs s1 other)) s1 in
       case allocate s2 (capacity_m (vecs s2 this)) of
         Inl e \<Rightarrow> Inl e
       | Inr (s3, p) \<Rightarrow>
           let s4 = set_data this p s3;
               s5 = set_data this (data_m (vecs s4 other)) s4;
               s6 = set_data other 0 s5
           in Inr (set_size other 0 s6))"

text \<open>\<open>begin()\<close>, \<open>end()\<close>, \<open>size()\<close> and reading through \<open>operator[]\<close>.\<close>

definition begin_v :: "'a state \<Rightarrow> vid \<Rightarrow> ptr" where
  "begin_v s this = (data_m (vecs s this), 0)"

definition end_v :: "'a state \<Rightarrow> vid \<Rightarrow> ptr" where
  "end_v s this = (data_m (vecs s this), size_m (vecs s this))"

definition size_v :: "'a state \<Rightarrow> vid \<Rightarrow> nat" where
  "size_v s this = size_m (vecs s this)"

definition index_v :: "'a state \<Rightarrow> vid \<Rightarrow> nat \<Rightarrow> error + 'a" where
  "index_v s this i = load s (data_m (vecs s this), i)"

text \<open>Assigning through \<open>operator[]\<close>: \<open>v[i] = x\<close> on a live slot.\<close>

definition assign_index :: "'a state \<Rightarrow> vid \<Rightarrow> nat \<Rightarrow> 'a \<Rightarrow> 'a result" where
  "assign_index s this i x =
     (case load s (data_m (vecs s this), i) of
        Inl e \<Rightarrow> Inl (e, s)
      | Inr v \<Rightarrow> construct_at s (data_m (vecs s this), i) x)"

text \<open>\<open>reserve\<close> and \<open>resize\<close> call each other.\<close>

function reserve :: "'a \<Rightarrow> 'a state \<Rightarrow> vid \<Rightarrow> nat \<Rightarrow> 'a result"
  and resize :: "'a \<Rightarrow> 'a state \<Rightarrow> vid \<Rightarrow> nat \<Rightarrow> 'a result" where
  "reserve d s this new_capacity =
     (if new_capacity < size_m (vecs s this) then
        (case resize d s this (size_m (vecs s this)) of
           Inl e \<Rightarrow> Inl e
         | Inr s1 \<Rightarrow> Inr (set_capacity this (size_m (vecs s1 this)) s1))
      else if new_capacity > capacity_m (vecs s this) then
        (case allocate s new_capacity of
           Inl e \<Rightarrow> Inl e
         | Inr (s1, new_buffer) \<Rightarrow>
             (case iterate [0 ..< size_m (vecs s1 this)]
                     (\<lambda>i s'. construct_from new_buffer (data_m (vecs s' this)) i s') s1 of
                Inl e \<Rightarrow> Inl e
              | Inr s2 \<Rightarrow>
                  (case destroy_n s2 (begin_v s2 this) (snd (end_v s2 this) - snd (begin_v s2 this)) of
                     Inl e \<Rightarrow> Inl e
                   | Inr s3 \<Rightarrow>
                       (case deallocate s3 (data_m (vecs s3 this)) (capacity_m (vecs s3 this)) of
                          Inl e \<Rightarrow> Inl e
                        | Inr s4 \<Rightarrow>
                            Inr (set_capacity this new_capacity (set_data this new_buffer s4))))))
      else Inr s)"
| "resize d s this new_size =
     (case (if new_size > size_m (vecs s this) then
              (case (if new_size > capacity_m (vecs s this)
                     then reserve d s this new_size else Inr s) of
                 Inl e \<Rightarrow> Inl e
               | Inr s1 \<Rightarrow>
                   iterate [size_m (vecs s1 this) ..< new_size]
                     (\<lambda>i s'. construct_at s' (data_m (vecs s' this), i) d) s1)
            else Inr s) of
        Inl e \<Rightarrow> Inl e
      | Inr s2 \<Rightarrow>
          (case (if new_size < size_m (vecs s2 this)
                 then destroy_n s2 (data_m (vecs s2 this), new_size)
                        (size_m (vecs s2 this) - new_size)
                 else Inr s2) of
             Inl e \<Rightarrow> Inl e
           | Inr s3 \<Rightarrow> Inr (set_size this new_size s3)))"
  by pat_completeness auto
termination
  by (relation "measure (\<lambda>x. case x of
         Inl (d, s, this, n) \<Rightarrow> if n < size_m (vecs s this) then 1 else 0
       | Inr (d, s, this, n) \<Rightarrow> if n > size_m (vecs s this) then 1 else 0)") auto

declare reserve.simps [simp del] resize.simps [simp del]

text \<open>
  The arguments of \<open>emplace_back\<close> are forwarding references. An argument is either a
  value of its own (a temporary, or an object that no vector operation touches) or a
  reference to a slot of a buffer, such as \<open>v[i]\<close>. The constructor of \<open>T\<close> reads a
  reference when \<open>std::construct_at\<close> runs, that is after the calls of \<open>reserve\<close>.
\<close>

datatype 'a arg = Value 'a | Ref ptr

definition forward_arg :: "'a state \<Rightarrow> 'a arg \<Rightarrow> error + 'a" where
  "forward_arg s a = (case a of Value x \<Rightarrow> Inr x | Ref q \<Rightarrow> load s q)"

text \<open>\<open>emplace_back(args...)\<close>\<close>

definition emplace_back :: "'a \<Rightarrow> 'a state \<Rightarrow> vid \<Rightarrow> 'a arg \<Rightarrow> 'a result" where
  "emplace_back d s this a =
     (case (if size_m (vecs s this) = capacity_m (vecs s this)
            then reserve d s this (size_t (2 * capacity_m (vecs s this))) else Inr s) of
        Inl e \<Rightarrow> Inl e
      | Inr s1 \<Rightarrow>
          (case (if capacity_m (vecs s1 this) = 0 then reserve d s1 this 16 else Inr s1) of
             Inl e \<Rightarrow> Inl e
           | Inr s2 \<Rightarrow>
               (case forward_arg s2 a of
                  Inl e \<Rightarrow> Inl (e, s2)
                | Inr x \<Rightarrow>
                    (case construct_at s2 (end_v s2 this) x of
                       Inl e \<Rightarrow> Inl e
                     | Inr s3 \<Rightarrow>
                         Inr (set_size this (size_t (size_m (vecs s3 this) + 1)) s3)))))"

text \<open>\<open>~vector_t()\<close>\<close>

definition vector_t_dtor :: "'a state \<Rightarrow> vid \<Rightarrow> 'a result" where
  "vector_t_dtor s this =
     (if data_m (vecs s this) \<noteq> 0 then
        (case destroy_n s (data_m (vecs s this), 0) (size_m (vecs s this)) of
           Inl e \<Rightarrow> Inl e
         | Inr s1 \<Rightarrow>
             (case deallocate s1 (data_m (vecs s1 this)) (capacity_m (vecs s1 this)) of
                Inl e \<Rightarrow> Inl e
              | Inr s2 \<Rightarrow> Inr (set_data this 0 s2)))
      else Inr s)"

text \<open>A program without vectors and without blocks, with \<open>m\<close> slots of memory.\<close>

definition init :: "nat \<Rightarrow> 'a state" where
  "init m = \<lparr>blocks = (\<lambda>p. None), next_addr = 1, avail = m, n_alloc = 0, n_dealloc = 0,
             vecs = (\<lambda>v. \<lparr>data_m = 0, size_m = 0, capacity_m = 0\<rparr>)\<rparr>"


section \<open>Client programs\<close>

text \<open>
  The calls a client can make on vector objects. \<open>exec\<close> performs one call, \<open>run\<close> a
  sequence of calls that ends at the first exception or undefined behaviour.
  \<open>Emplace_back this x\<close> is \<open>this.emplace_back(x)\<close> with a value \<open>x\<close> of its own;
  \<open>Emplace_back_ref this other i\<close> is \<open>this.emplace_back(other[i])\<close>, whose argument is
  the reference \<open>other._data[i]\<close>, formed before the call.
\<close>

datatype 'a op =
    Default_ctor vid
  | Sized_ctor vid nat
  | Copy_ctor vid vid
  | Move_ctor vid vid
  | Copy_assign vid vid
  | Move_assign vid vid
  | Reserve vid nat
  | Resize vid nat
  | Emplace_back vid 'a
  | Emplace_back_ref vid vid nat
  | Assign_index vid nat 'a
  | Dtor vid

fun exec :: "'a \<Rightarrow> 'a state \<Rightarrow> 'a op \<Rightarrow> 'a result" where
  "exec d s (Default_ctor this) = vector_t_default s this"
| "exec d s (Sized_ctor this n) = vector_t_sized d s this n"
| "exec d s (Copy_ctor this other) = vector_t_copy s this other"
| "exec d s (Move_ctor this other) = vector_t_move s this other"
| "exec d s (Copy_assign this other) = copy_assign s this other"
| "exec d s (Move_assign this other) = move_assign s this other"
| "exec d s (Reserve this n) = reserve d s this n"
| "exec d s (Resize this n) = resize d s this n"
| "exec d s (Emplace_back this x) = emplace_back d s this (Value x)"
| "exec d s (Emplace_back_ref this other i) =
     emplace_back d s this (Ref (data_m (vecs s other), i))"
| "exec d s (Assign_index this i x) = assign_index s this i x"
| "exec d s (Dtor this) = vector_t_dtor s this"

fun run :: "'a \<Rightarrow> 'a state \<Rightarrow> 'a op list \<Rightarrow> 'a result" where
  "run d s [] = Inr s"
| "run d s (c # cs) = (case exec d s c of Inl e \<Rightarrow> Inl e | Inr s' \<Rightarrow> run d s' cs)"

text \<open>
  The vector objects an operation works on. The argument of \<open>emplace_back\<close> is a
  reference to an element, not a vector.
\<close>

fun objects :: "'a op \<Rightarrow> vid list" where
  "objects (Default_ctor this) = [this]"
| "objects (Sized_ctor this n) = [this]"
| "objects (Copy_ctor this other) = [this, other]"
| "objects (Move_ctor this other) = [this, other]"
| "objects (Copy_assign this other) = [this, other]"
| "objects (Move_assign this other) = [this, other]"
| "objects (Reserve this n) = [this]"
| "objects (Resize this n) = [this]"
| "objects (Emplace_back this x) = [this]"
| "objects (Emplace_back_ref this other i) = [this]"
| "objects (Assign_index this i x) = [this]"
| "objects (Dtor this) = [this]"

text \<open>The state an operation ends in, normally or not.\<close>

definition state_of :: "'a result \<Rightarrow> 'a state" where
  "state_of r = (case r of Inl (e, s) \<Rightarrow> s | Inr s \<Rightarrow> s)"

text \<open>
  What a test with a counting allocator sees of a state: the members of the vectors
  \<open>vs\<close>, the blocks at the addresses \<open>ps\<close>, the number of allocations and the number of
  deallocations.
\<close>

definition observe ::
    "vid list \<Rightarrow> addr list \<Rightarrow> 'a state \<Rightarrow> vector_t list \<times> 'a option list option list \<times> nat \<times> nat" where
  "observe vs ps s = (map (vecs s) vs, map (blocks s) ps, n_alloc s, n_dealloc s)"

definition outcome ::
    "vid list \<Rightarrow> addr list \<Rightarrow> 'a result \<Rightarrow>
     (error \<times> vector_t list \<times> 'a option list option list \<times> nat \<times> nat) +
     (vector_t list \<times> 'a option list option list \<times> nat \<times> nat)" where
  "outcome vs ps r =
     (case r of Inl (e, s) \<Rightarrow> Inl (e, observe vs ps s) | Inr s \<Rightarrow> Inr (observe vs ps s))"

section \<open>Specification vocabulary\<close>

text \<open>
  \<open>holds s this xs cap\<close>: the vector at \<open>this\<close> is a valid container with the live
  elements \<open>xs\<close> and capacity \<open>cap\<close>: its Region is null with capacity \<open>0\<close>, or a block
  of \<open>cap\<close> slots whose first \<open>length xs\<close> slots hold \<open>xs\<close> and whose other slots are raw.
  The Region handle was handed out by the allocator, so it lies below the next fresh
  address, which is not null.
\<close>

definition holds :: "'a state \<Rightarrow> vid \<Rightarrow> 'a list \<Rightarrow> nat \<Rightarrow> bool" where
  "holds s this xs cap \<longleftrightarrow>
     size_m (vecs s this) = length xs \<and>
     capacity_m (vecs s this) = cap \<and>
     length xs \<le> cap \<and>
     0 < next_addr s \<and>
     data_m (vecs s this) < next_addr s \<and>
     (if data_m (vecs s this) = 0 then cap = 0
      else blocks s (data_m (vecs s this)) = Some (map Some xs @ replicate (cap - length xs) None))"

text \<open>
  The growth schedule of the specification: an insertion that finds \<open>size = capacity\<close>
  makes the capacity 16 if it was 0 and doubles it otherwise.
\<close>

definition next_cap :: "nat \<Rightarrow> nat \<Rightarrow> nat" where
  "next_cap n c = (if n = c then (if c = 0 then 16 else 2 * c) else c)"

fun cap_after :: "nat \<Rightarrow> nat" where
  "cap_after 0 = 0"
| "cap_after (Suc n) = next_cap n (cap_after n)"

text \<open>The same schedule, \<open>k\<close> insertions on from size \<open>n\<close> and capacity \<open>c\<close>.\<close>

fun cap_from :: "nat \<Rightarrow> nat \<Rightarrow> nat \<Rightarrow> nat" where
  "cap_from n c 0 = c"
| "cap_from n c (Suc k) = cap_from (Suc n) (next_cap n c) k"

text \<open>
  \<open>readable s this a x\<close>: at a call of \<open>emplace_back\<close> on \<open>this\<close> in state \<open>s\<close>, the
  argument \<open>a\<close> denotes the value \<open>x\<close> and stays readable during the call: it is a
  value of its own, or it refers to a live slot of an allocated block that holds \<open>x\<close>
  and does not lie in the container's own Region when the call finds
  \<open>size = capacity\<close>. \<open>inserts d s this cs xs\<close>: the calls \<open>cs\<close>, made one after the other
  from state \<open>s\<close>, are calls of \<open>emplace_back\<close> on \<open>this\<close> whose arguments are readable
  at their call and denote the values \<open>xs\<close>.
\<close>

definition readable :: "'a state \<Rightarrow> vid \<Rightarrow> 'a arg \<Rightarrow> 'a \<Rightarrow> bool" where
  "readable s this a x \<longleftrightarrow>
     (case a of
        Value y \<Rightarrow> y = x
      | Ref q \<Rightarrow>
          load s q = Inr x \<and> fst q < next_addr s \<and>
          (size_m (vecs s this) = capacity_m (vecs s this) \<longrightarrow>
             fst q \<noteq> data_m (vecs s this)))"

definition inserting :: "'a state \<Rightarrow> vid \<Rightarrow> 'a op \<Rightarrow> 'a \<Rightarrow> bool" where
  "inserting s this c x \<longleftrightarrow>
     (case c of
        Emplace_back t y \<Rightarrow> t = this \<and> readable s this (Value y) x
      | Emplace_back_ref t other i \<Rightarrow>
          t = this \<and> readable s this (Ref (data_m (vecs s other), i)) x
      | _ \<Rightarrow> False)"

fun inserts :: "'a \<Rightarrow> 'a state \<Rightarrow> vid \<Rightarrow> 'a op list \<Rightarrow> 'a list \<Rightarrow> bool" where
  "inserts d s this [] xs = (xs = [])"
| "inserts d s this (c # cs) [] = False"
| "inserts d s this (c # cs) (x # xs) =
     (inserting s this c x \<and> inserts d (state_of (exec d s c)) this cs xs)"

text \<open>
  No sharing among the vectors \<open>ids\<close>: every Region handle was handed out by the
  allocator, and two different vectors never hold the same non-null handle.
\<close>

definition unshared :: "vid list \<Rightarrow> 'a state \<Rightarrow> bool" where
  "unshared ids s \<longleftrightarrow>
     (\<forall>a \<in> set ids. data_m (vecs s a) < next_addr s) \<and>
     (\<forall>a \<in> set ids. \<forall>b \<in> set ids.
        a \<noteq> b \<and> data_m (vecs s a) \<noteq> 0 \<longrightarrow> data_m (vecs s a) \<noteq> data_m (vecs s b))"

text \<open>A vector of capacity 0 has the null Region or a Region without slots.\<close>

definition empty_region :: "'a state \<Rightarrow> vid \<Rightarrow> bool" where
  "empty_region s this \<longleftrightarrow>
     (capacity_m (vecs s this) = 0 \<longrightarrow>
        data_m (vecs s this) = 0 \<or> blocks s (data_m (vecs s this)) = Some [])"


text \<open>
  Frames. \<open>same_objects\<close>: no vector object changed and no address was handed out.
  \<open>same_shape\<close>: moreover every block kept its number of slots. \<open>own_step this\<close>: only
  the vector \<open>this\<close> changed, and its Region handle is the old one, null, or an address
  handed out in between.
\<close>

definition same_objects :: "'a state \<Rightarrow> 'a state \<Rightarrow> bool" where
  "same_objects s s' \<longleftrightarrow> vecs s' = vecs s \<and> next_addr s' = next_addr s"

definition same_shape :: "'a state \<Rightarrow> 'a state \<Rightarrow> bool" where
  "same_shape s s' \<longleftrightarrow>
     vecs s' = vecs s \<and> next_addr s' = next_addr s \<and>
     (\<forall>p. map_option length (blocks s' p) = map_option length (blocks s p))"

definition own_step :: "vid \<Rightarrow> 'a state \<Rightarrow> 'a state \<Rightarrow> bool" where
  "own_step this s s' \<longleftrightarrow>
     next_addr s \<le> next_addr s' \<and>
     (\<forall>v. v \<noteq> this \<longrightarrow> vecs s' v = vecs s v) \<and>
     (data_m (vecs s' this) = data_m (vecs s this) \<or>
      data_m (vecs s' this) = 0 \<or>
      (next_addr s \<le> data_m (vecs s' this) \<and> data_m (vecs s' this) < next_addr s'))"

section \<open>Evaluating concrete programs\<close>

lemma replicate_numeral_unfold: "replicate (numeral k) x = x # replicate (pred_numeral k) x"
  by (simp add: numeral_eq_Suc)

lemmas ev = Let_def allocate_def deallocate_def construct_at_def destroy_at_def load_def
  block_at_def destroy_n_def construct_from_def set_data_def set_size_def set_capacity_def
  noexcept_def vector_t_default_def vector_t_sized_def vector_t_copy_def vector_t_move_def
  copy_assign_def move_assign_def begin_v_def end_v_def size_v_def index_v_def
  assign_index_def reserve.simps resize.simps emplace_back_def vector_t_dtor_def init_def
  observe_def outcome_def state_of_def size_t_def upt_rec replicate_numeral_unfold
  forward_arg_def

section \<open>The loops\<close>

lemma list_update_after_map: "(map f xs @ y # ys)[length xs := z] = map f xs @ z # ys"
  by (simp add: list_update_append)

lemma state_blocks_idem: "blocks s p = b \<Longrightarrow> s\<lparr>blocks := (blocks s)(p := b)\<rparr> = s"
  by (simp add: fun_upd_idem)

lemma state_blocks_twice:
  "s\<lparr>blocks := (blocks s)(p := a)\<rparr>\<lparr>blocks := (blocks (s\<lparr>blocks := (blocks s)(p := a)\<rparr>))(p := b)\<rparr> =
   s\<lparr>blocks := (blocks s)(p := b)\<rparr>"
  by simp

lemma fill_loop:
  assumes "p \<noteq> 0" and "data_m (vecs s this) = p"
    and "blocks s p = Some (map Some xs @ replicate (m + k) None)"
  shows "iterate [length xs ..< length xs + m]
           (\<lambda>i s'. construct_at s' (data_m (vecs s' this), i) d) s =
         Inr (s\<lparr>blocks := (blocks s)(p := Some (map Some (xs @ replicate m d) @ replicate k None))\<rparr>)"
  using assms
proof (induction m arbitrary: s xs)
  case 0
  have eq: "s\<lparr>blocks := (blocks s)(p := Some (map Some (xs @ replicate 0 d) @ replicate k None))\<rparr> = s"
    by (rule state_blocks_idem) (use "0.prems" in simp)
  have r: "[length xs ..< length xs + 0] = []" by simp
  show ?case unfolding r iterate.simps eq by (rule refl)
next
  case (Suc m)
  let ?s1 = "s\<lparr>blocks := (blocks s)(p := Some (map Some (xs @ [d]) @ replicate (m + k) None))\<rparr>"
  have step: "construct_at s (data_m (vecs s this), length xs) d = Inr ?s1"
    using Suc.prems by (simp add: construct_at_def block_at_def list_update_after_map)
  have range: "[length xs ..< length xs + Suc m] = length xs # [length (xs @ [d]) ..< length (xs @ [d]) + m]"
    by (simp add: upt_rec)
  have ih: "iterate [length (xs @ [d]) ..< length (xs @ [d]) + m]
           (\<lambda>i s'. construct_at s' (data_m (vecs s' this), i) d) ?s1 =
         Inr (?s1\<lparr>blocks := (blocks ?s1)(p := Some (map Some ((xs @ [d]) @ replicate m d) @ replicate k None))\<rparr>)"
    using Suc.prems by (intro Suc.IH) simp_all
  have lst: "(xs @ [d]) @ replicate m d = xs @ replicate (Suc m) d"
    by simp
  show ?case
    by (simp only: range iterate.simps step sum.case ih state_blocks_twice lst)
qed

lemma move_loop:
  assumes "dst \<noteq> 0" and "src \<noteq> 0" and "dst \<noteq> src" and "data_m (vecs s this) = src"
    and "blocks s src = Some (map Some (ys @ zs) @ rest)"
    and "blocks s dst = Some (map Some ys @ replicate (length zs + k) None)"
  shows "iterate [length ys ..< length ys + length zs]
           (\<lambda>i s'. construct_from dst (data_m (vecs s' this)) i s') s =
         Inr (s\<lparr>blocks := (blocks s)(dst := Some (map Some (ys @ zs) @ replicate k None))\<rparr>)"
  using assms
proof (induction zs arbitrary: s ys)
  case Nil
  have eq: "s\<lparr>blocks := (blocks s)(dst := Some (map Some (ys @ []) @ replicate k None))\<rparr> = s"
    by (rule state_blocks_idem) (use Nil.prems in simp)
  have r: "[length ys ..< length ys + length ([]::'a list)] = []" by simp
  show ?case unfolding r iterate.simps eq by (rule refl)
next
  case (Cons z zs)
  let ?s1 = "s\<lparr>blocks := (blocks s)(dst := Some (map Some (ys @ [z]) @ replicate (length zs + k) None))\<rparr>"
  have rd: "load s (src, length ys) = Inr z"
    using Cons.prems by (simp add: load_def block_at_def nth_append)
  have step: "construct_from dst (data_m (vecs s this)) (length ys) s = Inr ?s1"
    using Cons.prems rd by (simp add: construct_from_def construct_at_def block_at_def list_update_after_map)
  have range: "[length ys ..< length ys + length (z # zs)] =
      length ys # [length (ys @ [z]) ..< length (ys @ [z]) + length zs]"
    by (simp add: upt_rec)
  have ih: "iterate [length (ys @ [z]) ..< length (ys @ [z]) + length zs]
           (\<lambda>i s'. construct_from dst (data_m (vecs s' this)) i s') ?s1 =
         Inr (?s1\<lparr>blocks := (blocks ?s1)(dst := Some (map Some ((ys @ [z]) @ zs) @ replicate k None))\<rparr>)"
    using Cons.prems by (intro Cons.IH) simp_all
  have lst: "(ys @ [z]) @ zs = ys @ z # zs"
    by simp
  show ?case
    by (simp only: range iterate.simps step sum.case ih state_blocks_twice lst)
qed

lemma destroy_loop:
  assumes "p \<noteq> 0" and "blocks s p = Some (front @ map Some zs @ rest)"
  shows "iterate [length front ..< length front + length zs] (\<lambda>i s'. destroy_at s' (p, i)) s =
         Inr (s\<lparr>blocks := (blocks s)(p := Some (front @ replicate (length zs) None @ rest))\<rparr>)"
  using assms
proof (induction zs arbitrary: s front)
  case Nil
  have eq: "s\<lparr>blocks := (blocks s)(p := Some (front @ replicate (length ([]::'a list)) None @ rest))\<rparr> = s"
    by (rule state_blocks_idem) (use Nil.prems in simp)
  have r: "[length front ..< length front + length ([]::'a list)] = []" by simp
  show ?case unfolding r iterate.simps eq by (rule refl)
next
  case (Cons z zs)
  let ?s1 = "s\<lparr>blocks := (blocks s)(p := Some ((front @ [None]) @ map Some zs @ rest))\<rparr>"
  have step: "destroy_at s (p, length front) = Inr ?s1"
    using Cons.prems by (simp add: destroy_at_def block_at_def)
  have range: "[length front ..< length front + length (z # zs)] =
      length front # [length (front @ [None]) ..< length (front @ [None]) + length zs]"
    by (simp add: upt_rec)
  have ih: "iterate [length (front @ [None]) ..< length (front @ [None]) + length zs]
           (\<lambda>i s'. destroy_at s' (p, i)) ?s1 =
         Inr (?s1\<lparr>blocks := (blocks ?s1)(p := Some ((front @ [None]) @ replicate (length zs) None @ rest))\<rparr>)"
    using Cons.prems by (intro Cons.IH) simp_all
  have lst: "(front @ [None]) @ replicate (length zs) None @ rest =
      front @ replicate (length (z # zs)) None @ rest"
    by simp
  show ?case
    by (simp only: range iterate.simps step sum.case ih state_blocks_twice lst)
qed

section \<open>Growing, resizing and appending on a valid container\<close>

lemma reserve_grows:
  assumes h: "holds s this xs cap" and gt: "cap < nc" and av: "nc \<le> avail s"
  shows "\<exists>s'. reserve d s this nc = Inr s' \<and> holds s' this xs nc \<and>
           avail s' + nc = avail s + cap \<and>
           (\<forall>p. p \<noteq> data_m (vecs s this) \<and> p < next_addr s \<longrightarrow> blocks s' p = blocks s p)"
proof -
  let ?q = "next_addr s"
  let ?p = "data_m (vecs s this)"
  let ?s1 = "s\<lparr>blocks := (blocks s)(?q := Some (replicate nc None)), next_addr := Suc ?q,
               avail := avail s - nc, n_alloc := Suc (n_alloc s)\<rparr>"
  from h have sz: "size_m (vecs s this) = length xs" and cp: "capacity_m (vecs s this) = cap"
    and le: "length xs \<le> cap" and q0: "0 < ?q" and pq: "?p < ?q"
    by (simp_all add: holds_def)
  have ne: "?p \<noteq> ?q" "?q \<noteq> ?p"
    using pq by simp_all
  have alloc: "allocate s nc = Inr (?s1, ?q)"
    using av by (simp add: allocate_def)
  have br: "\<not> nc < size_m (vecs s this)" "nc > capacity_m (vecs s this)"
    using sz cp le gt by simp_all
  show ?thesis
  proof (cases "?p = 0")
    case True
    with h have "cap = 0" by (simp add: holds_def)
    with le have "xs = []" by simp
    show ?thesis
      using True \<open>cap = 0\<close> \<open>xs = []\<close> sz cp q0 av
      by (simp add: reserve.simps allocate_def destroy_n_def begin_v_def end_v_def
          deallocate_def set_data_def set_capacity_def holds_def)
  next
    case False
    with h have blk: "blocks s ?p = Some (map Some xs @ replicate (cap - length xs) None)"
      by (simp add: holds_def)
    let ?s2 = "?s1\<lparr>blocks := (blocks ?s1)(?q := Some (map Some ([] @ xs) @ replicate (nc - length xs) None))\<rparr>"
    have "iterate [length ([]::'a list) ..< length ([]::'a list) + length xs]
            (\<lambda>i s'. construct_from ?q (data_m (vecs s' this)) i s') ?s1 = Inr ?s2"
      using False q0 blk le gt
      by (intro move_loop [where src = "?p" and rest = "replicate (cap - length xs) None"]) (simp_all add: ne)
    then have loop1: "iterate [0 ..< size_m (vecs ?s1 this)]
            (\<lambda>i s'. construct_from ?q (data_m (vecs s' this)) i s') ?s1 = Inr ?s2"
      using sz by simp
    let ?s3 = "?s2\<lparr>blocks := (blocks ?s2)(?p := Some ([] @ replicate (length xs) None @ replicate (cap - length xs) None))\<rparr>"
    have "iterate [length ([]::'a option list) ..< length ([]::'a option list) + length xs]
            (\<lambda>i s'. destroy_at s' (?p, i)) ?s2 = Inr ?s3"
      using False blk
      by (intro destroy_loop) (simp_all add: ne)
    then have loop2: "destroy_n ?s2 (begin_v ?s2 this) (snd (end_v ?s2 this) - snd (begin_v ?s2 this)) = Inr ?s3"
      using sz by (simp add: destroy_n_def begin_v_def end_v_def)
    let ?s4 = "?s3\<lparr>blocks := (blocks ?s3)(?p := None), avail := avail ?s3 + cap,
                 n_dealloc := Suc (n_dealloc ?s3)\<rparr>"
    have free: "deallocate ?s3 (data_m (vecs ?s3 this)) (capacity_m (vecs ?s3 this)) = Inr ?s4"
      using False cp le by (simp add: deallocate_def ne)
    have res: "reserve d s this nc = Inr (set_capacity this nc (set_data this ?q ?s4))"
      using br by (simp only: reserve.simps [of d s this nc] if_False if_True alloc sum.case
          prod.case loop1 loop2 free)
    have "holds (set_capacity this nc (set_data this ?q ?s4)) this xs nc"
      using sz le gt q0 False by (simp add: holds_def set_capacity_def set_data_def ne)
    moreover have "avail (set_capacity this nc (set_data this ?q ?s4)) + nc = avail s + cap"
      using av by (simp add: set_capacity_def set_data_def)
    moreover have "\<forall>p. p \<noteq> ?p \<and> p < ?q \<longrightarrow>
        blocks (set_capacity this nc (set_data this ?q ?s4)) p = blocks s p"
      by (simp add: set_capacity_def set_data_def)
    ultimately show ?thesis
      using res by blast
  qed
qed

lemma holds_data_nonnull: "holds s this xs cap \<Longrightarrow> 0 < cap \<Longrightarrow> data_m (vecs s this) \<noteq> 0"
  by (auto simp add: holds_def split: if_splits)

lemma holds_block:
  "holds s this xs cap \<Longrightarrow> 0 < cap \<Longrightarrow>
   blocks s (data_m (vecs s this)) = Some (map Some xs @ replicate (cap - length xs) None)"
  by (auto simp add: holds_def split: if_splits)

lemma set_size_same: "set_size this (size_m (vecs s this)) s = s"
  by (simp add: set_size_def)

lemma resize_grow:
  assumes h: "holds s this xs cap" and av: "cap < ns \<longrightarrow> ns \<le> avail s"
    and grow: "length xs < ns"
  shows "\<exists>s'. resize d s this ns = Inr s' \<and>
           holds s' this (xs @ replicate (ns - length xs) d) (max cap ns)"
proof -
  from h have sz: "size_m (vecs s this) = length xs" and cp: "capacity_m (vecs s this) = cap"
    by (simp_all add: holds_def)
  have "\<exists>s1. (if ns > capacity_m (vecs s this) then reserve d s this ns else Inr s) = Inr s1 \<and>
          holds s1 this xs (max cap ns)"
  proof (cases "cap < ns")
    case True
    with av have "ns \<le> avail s" by simp
    from reserve_grows [OF h True this, of d] True cp show ?thesis
      by (auto simp add: max_def)
  next
    case False
    with h cp show ?thesis by (simp add: max_def)
  qed
  then obtain s1 where
    r1: "(if ns > capacity_m (vecs s this) then reserve d s this ns else Inr s) = Inr s1"
    and h1: "holds s1 this xs (max cap ns)"
    by blast
  let ?p = "data_m (vecs s1 this)"
  let ?c = "max cap ns"
  from h1 have sz1: "size_m (vecs s1 this) = length xs"
    by (simp add: holds_def)
  from grow have cpos: "0 < ?c" by simp
  have p0: "?p \<noteq> 0" by (rule holds_data_nonnull [OF h1 cpos])
  have blk: "blocks s1 ?p = Some (map Some xs @ replicate (?c - length xs) None)"
    by (rule holds_block [OF h1 cpos])
  let ?s2 = "s1\<lparr>blocks := (blocks s1)(?p :=
      Some (map Some (xs @ replicate (ns - length xs) d) @ replicate (?c - ns) None))\<rparr>"
  have split: "?c - length xs = (ns - length xs) + (?c - ns)"
    using grow by simp
  have "iterate [length xs ..< length xs + (ns - length xs)]
          (\<lambda>i s'. construct_at s' (data_m (vecs s' this), i) d) s1 = Inr ?s2"
    by (rule fill_loop [OF p0 refl]) (simp only: blk split)
  moreover have "length xs + (ns - length xs) = ns"
    using grow by simp
  ultimately have loop: "iterate [size_m (vecs s1 this) ..< ns]
          (\<lambda>i s'. construct_at s' (data_m (vecs s' this), i) d) s1 = Inr ?s2"
    by (simp only: sz1)
  have c1: "ns > size_m (vecs s this)"
    using grow sz by simp
  have c2: "\<not> ns < size_m (vecs ?s2 this)"
    using grow sz1 by simp
  have res: "resize d s this ns = Inr (set_size this ns ?s2)"
    by (simp only: resize.simps [of d s this ns] c1 c2 if_True if_False r1 sum.case loop)
  have "holds (set_size this ns ?s2) this (xs @ replicate (ns - length xs) d) ?c"
    using h1 grow p0 by (simp add: holds_def set_size_def)
  with res show ?thesis by blast
qed

lemma resize_shrink:
  assumes h: "holds s this xs cap" and shrink: "ns < length xs"
  shows "\<exists>s'. resize d s this ns = Inr s' \<and> holds s' this (take ns xs) cap"
proof -
  from h have sz: "size_m (vecs s this) = length xs" and cp: "capacity_m (vecs s this) = cap"
    and le: "length xs \<le> cap"
    by (simp_all add: holds_def)
  let ?p = "data_m (vecs s this)"
  from shrink le have cpos: "0 < cap" by simp
  have p0: "?p \<noteq> 0" by (rule holds_data_nonnull [OF h cpos])
  have "blocks s ?p = Some (map Some xs @ replicate (cap - length xs) None)"
    by (rule holds_block [OF h cpos])
  moreover have "map Some xs = map Some (take ns xs) @ map Some (drop ns xs)"
    by (simp only: map_append [symmetric] append_take_drop_id)
  ultimately have blk: "blocks s ?p =
      Some (map Some (take ns xs) @ map Some (drop ns xs) @ replicate (cap - length xs) None)"
    by simp
  let ?s3 = "s\<lparr>blocks := (blocks s)(?p := Some (map Some (take ns xs) @
      replicate (length (drop ns xs)) None @ replicate (cap - length xs) None))\<rparr>"
  have "iterate [length (map Some (take ns xs)) ..<
                 length (map Some (take ns xs)) + length (drop ns xs)]
          (\<lambda>i s'. destroy_at s' (?p, i)) s = Inr ?s3"
    by (rule destroy_loop [OF p0 blk])
  moreover have "length (map Some (take ns xs)) = ns"
    using shrink by simp
  moreover have "length (drop ns xs) = size_m (vecs s this) - ns"
    using sz by simp
  ultimately have loop: "destroy_n s (?p, ns) (size_m (vecs s this) - ns) = Inr ?s3"
    by (simp only: destroy_n_def fst_conv snd_conv)
  have c1: "\<not> ns > size_m (vecs s this)" "ns < size_m (vecs s this)"
    using shrink sz by simp_all
  have res: "resize d s this ns = Inr (set_size this ns ?s3)"
    by (simp only: resize.simps [of d s this ns] c1 if_True if_False sum.case loop)
  have "replicate (length (drop ns xs)) None @ replicate (cap - length xs) None =
      replicate (cap - ns) (None::'a option)"
    using shrink le by (simp add: replicate_add [symmetric])
  then have "holds (set_size this ns ?s3) this (take ns xs) cap"
    using h shrink p0 by (simp add: holds_def set_size_def)
  with res show ?thesis by blast
qed

lemma resize_spec:
  assumes h: "holds s this xs cap" and av: "cap < ns \<longrightarrow> ns \<le> avail s"
  shows "\<exists>s'. resize d s this ns = Inr s' \<and>
           holds s' this (take ns xs @ replicate (ns - length xs) d) (max cap ns)"
proof -
  from h have sz: "size_m (vecs s this) = length xs" and le: "length xs \<le> cap"
    by (simp_all add: holds_def)
  consider (grow) "length xs < ns" | (shrink) "ns < length xs" | (same) "ns = length xs"
    by linarith
  then show ?thesis
  proof cases
    case grow
    with resize_grow [OF h av grow, of d] show ?thesis by simp
  next
    case shrink
    with le have "max cap ns = cap" by simp
    with resize_shrink [OF h shrink, of d] shrink show ?thesis by simp
  next
    case same
    have ns: "ns = size_m (vecs s this)"
      using same sz by simp
    have "resize d s this ns = Inr s"
      unfolding ns by (simp add: resize.simps [of d s this "size_m (vecs s this)"] set_size_same)
    moreover from le same have "max cap ns = cap" by simp
    ultimately show ?thesis using h same by simp
  qed
qed

lemma reserve_noop: 
  "size_m (vecs s this) \<le> nc \<Longrightarrow> nc \<le> capacity_m (vecs s this) \<Longrightarrow> reserve d s this nc = Inr s"
  by (simp add: reserve.simps)

lemma load_same_block: "blocks s' (fst q) = blocks s (fst q) \<Longrightarrow> load s' q = load s q"
  by (simp add: load_def block_at_def)

lemma readable_now: "readable s this a x \<Longrightarrow> forward_arg s a = Inr x"
  by (cases a) (simp_all add: readable_def forward_arg_def)

lemma readable_after_growth:
  assumes rd: "readable s this a x"
    and full: "size_m (vecs s this) = capacity_m (vecs s this)"
    and frame: "\<forall>p. p \<noteq> data_m (vecs s this) \<and> p < next_addr s \<longrightarrow> blocks s2 p = blocks s p"
  shows "forward_arg s2 a = Inr x"
proof (cases a)
  case (Value y)
  with rd show ?thesis by (simp add: readable_def forward_arg_def)
next
  case (Ref q)
  with rd full have l: "load s q = Inr x" and "fst q < next_addr s"
    and "fst q \<noteq> data_m (vecs s this)"
    by (simp_all add: readable_def)
  with frame have "blocks s2 (fst q) = blocks s (fst q)" by blast
  then have "load s2 q = load s q" by (rule load_same_block)
  with l Ref show ?thesis by (simp add: forward_arg_def)
qed

lemma emplace_back_tail:
  assumes h: "holds s this xs cap" and room: "length xs < cap" and bound: "length xs + 1 < 2 ^ 64"
    and rd: "forward_arg s a = Inr x"
  shows "\<exists>s'. (case forward_arg s a of
                 Inl e \<Rightarrow> Inl (e, s)
               | Inr x \<Rightarrow>
                   (case construct_at s (end_v s this) x of
                      Inl e \<Rightarrow> Inl e
                    | Inr s3 \<Rightarrow>
                        Inr (set_size this (size_t (size_m (vecs s3 this) + 1)) s3))) = Inr s' \<and>
           holds s' this (xs @ [x]) cap \<and> avail s' = avail s"
proof -
  let ?p = "data_m (vecs s this)"
  from h have sz: "size_m (vecs s this) = length xs"
    by (simp add: holds_def)
  from room have cpos: "0 < cap" by simp
  have p0: "?p \<noteq> 0" by (rule holds_data_nonnull [OF h cpos])
  have blk: "blocks s ?p = Some (map Some xs @ replicate (cap - length xs) None)"
    by (rule holds_block [OF h cpos])
  have raw: "replicate (cap - length xs) (None::'a option) = None # replicate (cap - Suc (length xs)) None"
    using room by (simp add: replicate_Suc [symmetric] Suc_diff_Suc del: replicate_Suc)
  let ?s3 = "s\<lparr>blocks := (blocks s)(?p := Some (map Some xs @ Some x # replicate (cap - Suc (length xs)) None))\<rparr>"
  have step: "construct_at s (end_v s this) x = Inr ?s3"
    using p0 room by (simp add: construct_at_def end_v_def block_at_def blk sz raw list_update_after_map)
  have wrap: "size_t (size_m (vecs ?s3 this) + 1) = Suc (length xs)"
    using bound sz by (simp add: size_t_def)
  have "holds (set_size this (Suc (length xs)) ?s3) this (xs @ [x]) cap"
    using h room p0 by (simp add: holds_def set_size_def)
  moreover have "avail (set_size this (Suc (length xs)) ?s3) = avail s"
    by (simp add: set_size_def)
  ultimately show ?thesis
    by (simp only: rd step sum.case wrap) blast
qed

lemma emplace_back_step:
  assumes h: "holds s this xs cap"
    and av: "length xs = cap \<longrightarrow> next_cap (length xs) cap \<le> avail s"
    and bound: "2 * cap < 2 ^ 64"
    and rd: "readable s this a x"
  shows "\<exists>s'. emplace_back d s this a = Inr s' \<and>
           holds s' this (xs @ [x]) (next_cap (length xs) cap) \<and>
           avail s' + next_cap (length xs) cap = avail s + cap"
proof -
  from h have sz: "size_m (vecs s this) = length xs" and cp: "capacity_m (vecs s this) = cap"
    and le: "length xs \<le> cap"
    by (simp_all add: holds_def)
  let ?c = "next_cap (length xs) cap"
  have "\<exists>s2. (case (if size_m (vecs s this) = capacity_m (vecs s this)
                    then reserve d s this (size_t (2 * capacity_m (vecs s this))) else Inr s) of
                Inl e \<Rightarrow> Inl e
              | Inr s1 \<Rightarrow> (if capacity_m (vecs s1 this) = 0 then reserve d s1 this 16 else Inr s1)) = Inr s2 \<and>
          holds s2 this xs ?c \<and> avail s2 + ?c = avail s + cap \<and> forward_arg s2 a = Inr x"
  proof (cases "length xs = cap")
    case full: True
    with sz cp have eq: "size_m (vecs s this) = capacity_m (vecs s this)" by simp
    show ?thesis
    proof (cases "cap = 0")
      case True
      have r0: "reserve d s this 0 = Inr s"
        using True cp sz full by (simp add: reserve_noop)
      from av full True have "16 \<le> avail s" by (simp add: next_cap_def)
      moreover have "cap < 16" using True by simp
      ultimately obtain s2 where "reserve d s this 16 = Inr s2" "holds s2 this xs 16"
        "avail s2 + 16 = avail s + cap"
        and fr: "\<forall>p. p \<noteq> data_m (vecs s this) \<and> p < next_addr s \<longrightarrow> blocks s2 p = blocks s p"
        using reserve_grows [OF h, of 16 d] by blast
      moreover have "forward_arg s2 a = Inr x"
        by (rule readable_after_growth [OF rd eq fr])
      ultimately show ?thesis
        using True cp sz full by (simp add: size_t_def r0 next_cap_def)
    next
      case False
      have w: "size_t (2 * cap) = 2 * cap"
        using bound by (simp add: size_t_def)
      from av full False have "2 * cap \<le> avail s" by (simp add: next_cap_def)
      moreover have "cap < 2 * cap" using False by simp
      ultimately obtain s2 where r: "reserve d s this (2 * cap) = Inr s2" and h2: "holds s2 this xs (2 * cap)"
        and a2: "avail s2 + 2 * cap = avail s + cap"
        and fr: "\<forall>p. p \<noteq> data_m (vecs s this) \<and> p < next_addr s \<longrightarrow> blocks s2 p = blocks s p"
        using reserve_grows [OF h, of "2 * cap" d] by blast
      have f2: "forward_arg s2 a = Inr x"
        by (rule readable_after_growth [OF rd eq fr])
      from h2 False have "capacity_m (vecs s2 this) \<noteq> 0" by (simp add: holds_def)
      then show ?thesis
        using False cp sz full r h2 a2 f2 by (simp add: w next_cap_def)
    qed
  next
    case False
    with le have "cap \<noteq> 0" by auto
    then show ?thesis
      using False h cp sz readable_now [OF rd] by (simp add: next_cap_def)
  qed
  then obtain s2 where pre: "(case (if size_m (vecs s this) = capacity_m (vecs s this)
                    then reserve d s this (size_t (2 * capacity_m (vecs s this))) else Inr s) of
                Inl e \<Rightarrow> Inl e
              | Inr s1 \<Rightarrow> (if capacity_m (vecs s1 this) = 0 then reserve d s1 this 16 else Inr s1)) = Inr s2"
    and h2: "holds s2 this xs ?c" and a2: "avail s2 + ?c = avail s + cap"
    and f2: "forward_arg s2 a = Inr x"
    by blast
  have room: "length xs < ?c"
    using le by (auto simp add: next_cap_def)
  have b2: "length xs + 1 < 2 ^ 64"
    using le bound by (cases "cap = 0") simp_all
  from emplace_back_tail [OF h2 room b2 f2] obtain s' where
    t: "(case forward_arg s2 a of
           Inl e \<Rightarrow> Inl (e, s2)
         | Inr x \<Rightarrow>
             (case construct_at s2 (end_v s2 this) x of
                Inl e \<Rightarrow> Inl e
              | Inr s3 \<Rightarrow>
                  Inr (set_size this (size_t (size_m (vecs s3 this) + 1)) s3))) = Inr s'"
    and h': "holds s' this (xs @ [x]) ?c" and a': "avail s' = avail s2"
    by blast
  have split: "emplace_back d s this a =
      (case (case (if size_m (vecs s this) = capacity_m (vecs s this)
                    then reserve d s this (size_t (2 * capacity_m (vecs s this))) else Inr s) of
                Inl e \<Rightarrow> Inl e
              | Inr s1 \<Rightarrow> (if capacity_m (vecs s1 this) = 0 then reserve d s1 this 16 else Inr s1)) of
         Inl e \<Rightarrow> Inl e
       | Inr s2 \<Rightarrow>
           (case forward_arg s2 a of
              Inl e \<Rightarrow> Inl (e, s2)
            | Inr x \<Rightarrow>
                (case construct_at s2 (end_v s2 this) x of
                   Inl e \<Rightarrow> Inl e
                 | Inr s3 \<Rightarrow>
                     Inr (set_size this (size_t (size_m (vecs s3 this) + 1)) s3))))"
    by (simp add: emplace_back_def split: sum.splits)
  have "emplace_back d s this a = Inr s'"
    by (simp only: split pre sum.case t)
  with h' a' a2 show ?thesis by auto
qed

lemma next_cap_ge: "c \<le> next_cap n c"
  by (simp add: next_cap_def)

lemma cap_from_ge: "c \<le> cap_from n c k"
proof (induction k arbitrary: n c)
  case 0
  show ?case by simp
next
  case (Suc k)
  have "c \<le> next_cap n c" by (rule next_cap_ge)
  also have "\<dots> \<le> cap_from (Suc n) (next_cap n c) k" by (rule Suc.IH)
  finally show ?case by simp
qed

lemma cap_after_from: "cap_from n (cap_after n) k = cap_after (n + k)"
proof (induction k arbitrary: n)
  case 0
  show ?case by simp
next
  case (Suc k)
  have "cap_from n (cap_after n) (Suc k) = cap_from (Suc n) (cap_after (Suc n)) k"
    by simp
  also have "\<dots> = cap_after (Suc n + k)"
    by (rule Suc.IH)
  finally show ?case by simp
qed

lemma exec_inserting:
  assumes "inserting s this c x"
  shows "\<exists>a. exec d s c = emplace_back d s this a \<and> readable s this a x"
  using assms by (cases c) (auto simp add: inserting_def)

lemma emplace_back_inserts:
  assumes "holds s this ys c" and "inserts d s this cs xs"
    and "2 * cap_from (length ys) c (length xs) \<le> avail s + c" and "avail s + c < 2 ^ 64"
  shows "\<exists>s'. run d s cs = Inr s' \<and>
           holds s' this (ys @ xs) (cap_from (length ys) c (length xs))"
  using assms
proof (induction cs arbitrary: s ys c xs)
  case Nil
  then show ?case by simp
next
  case (Cons c0 cs)
  from Cons.prems(2) obtain x xs' where xs: "xs = x # xs'"
    by (cases xs) simp_all
  with Cons.prems(2) have ins: "inserting s this c0 x"
    and rest: "inserts d (state_of (exec d s c0)) this cs xs'"
    by simp_all
  from exec_inserting [OF ins, of d] obtain a where
    ex: "exec d s c0 = emplace_back d s this a" and rd: "readable s this a x"
    by blast
  let ?c1 = "next_cap (length ys) c"
  let ?F = "cap_from (Suc (length ys)) ?c1 (length xs')"
  have fin: "cap_from (length ys) c (length xs) = ?F"
    using xs by simp
  have ge1: "?c1 \<le> ?F" by (rule cap_from_ge)
  have ge0: "c \<le> ?c1" by (rule next_cap_ge)
  have big: "2 * ?F \<le> avail s + c"
    using Cons.prems(3) unfolding fin .
  have "?c1 \<le> avail s"
    using big ge1 ge0 by linarith
  then have av: "length ys = c \<longrightarrow> ?c1 \<le> avail s"
    by (rule impI)
  have bound: "2 * c < 2 ^ 64"
    using big ge1 ge0 Cons.prems(4) by linarith
  from emplace_back_step [OF Cons.prems(1) av bound rd, of d] obtain s1 where
    e: "emplace_back d s this a = Inr s1"
    and h1: "holds s1 this (ys @ [x]) ?c1"
    and a1: "avail s1 + ?c1 = avail s + c"
    by blast
  from ex e have ex1: "exec d s c0 = Inr s1" by simp
  with rest have rest1: "inserts d s1 this cs xs'" by (simp add: state_of_def)
  have len: "length (ys @ [x]) = Suc (length ys)" by simp
  have b1: "2 * cap_from (length (ys @ [x])) ?c1 (length xs') \<le> avail s1 + ?c1"
    unfolding len using big a1 by simp
  have b2: "avail s1 + ?c1 < 2 ^ 64"
    using a1 Cons.prems(4) by simp
  from Cons.IH [OF h1 rest1 b1 b2] obtain s' where
    r: "run d s1 cs = Inr s'"
    and h': "holds s' this ((ys @ [x]) @ xs') (cap_from (length (ys @ [x])) ?c1 (length xs'))"
    by blast
  from r ex1 have "run d s (c0 # cs) = Inr s'" by simp
  moreover from h' have "holds s' this (ys @ xs) (cap_from (length ys) c (length xs))"
    unfolding len fin xs by simp
  ultimately show ?case by blast
qed

lemma holds_index:
  assumes "holds s this xs cap" and "i < length xs"
  shows "index_v s this i = Inr (xs ! i)"
proof -
  from assms have cpos: "0 < cap" by (simp add: holds_def)
  have p0: "data_m (vecs s this) \<noteq> 0" by (rule holds_data_nonnull [OF assms(1) cpos])
  have blk: "blocks s (data_m (vecs s this)) = Some (map Some xs @ replicate (cap - length xs) None)"
    by (rule holds_block [OF assms(1) cpos])
  show ?thesis
    using assms(2) p0 by (simp add: index_v_def load_def block_at_def blk nth_append)
qed

section \<open>Frame lemmas\<close>

lemma same_shape_refl: "same_shape s s"
  by (simp add: same_shape_def)

lemma same_shape_trans: "same_shape s s1 \<Longrightarrow> same_shape s1 s2 \<Longrightarrow> same_shape s s2"
  by (simp add: same_shape_def)

lemma same_shape_objects: "same_shape s s' \<Longrightarrow> same_objects s s'"
  by (simp add: same_shape_def same_objects_def)

lemma construct_at_shape: "same_shape s (state_of (construct_at s q v))"
  by (auto simp add: construct_at_def block_at_def state_of_def same_shape_def split: option.splits)

lemma destroy_at_shape: "same_shape s (state_of (destroy_at s q))"
  by (auto simp add: destroy_at_def block_at_def state_of_def same_shape_def split: option.splits)

lemma construct_from_shape: "same_shape s (state_of (construct_from dst src i s))"
proof (cases "load s (src, i)")
  case (Inl e)
  then show ?thesis by (simp add: construct_from_def state_of_def same_shape_def)
next
  case (Inr v)
  then show ?thesis by (simp add: construct_from_def construct_at_shape)
qed

lemma iterate_shape:
  assumes "\<And>i s. same_shape s (state_of (f i s))"
  shows "same_shape s (state_of (iterate js f s))"
proof (induction js arbitrary: s)
  case Nil
  show ?case by (simp add: state_of_def same_shape_refl)
next
  case (Cons j js)
  show ?case
  proof (cases "f j s")
    case (Inl e)
    with assms [of s j] show ?thesis by simp
  next
    case (Inr s1)
    with assms [of s j] have "same_shape s s1" by (simp add: state_of_def)
    with Cons [of s1] Inr show ?thesis by (simp add: same_shape_trans)
  qed
qed

lemma destroy_n_shape: "same_shape s (state_of (destroy_n s q n))"
  unfolding destroy_n_def by (rule iterate_shape) (rule destroy_at_shape)

lemma deallocate_objects: "same_objects s (state_of (deallocate s p n))"
  by (auto simp add: deallocate_def state_of_def same_objects_def split: option.splits)

lemma shape_Inr: "r = Inr s' \<Longrightarrow> same_shape s (state_of r) \<Longrightarrow> same_shape s s'"
  by (simp add: state_of_def)

lemma shape_Inl: "r = Inl (e, s') \<Longrightarrow> same_shape s (state_of r) \<Longrightarrow> same_shape s s'"
  by (simp add: state_of_def)

lemma own_step_refl: "own_step this s s"
  by (simp add: own_step_def)

lemma own_step_trans: "own_step this s s1 \<Longrightarrow> own_step this s1 s2 \<Longrightarrow> own_step this s s2"
  unfolding own_step_def by (elim conjE disjE) auto

lemma same_objects_own_step: "same_objects s s' \<Longrightarrow> own_step this s s'"
  by (simp add: same_objects_def own_step_def)

lemma own_step_unshared:
  assumes "unshared ids s" and "own_step this s s'"
  shows "unshared ids s'"
  unfolding unshared_def
proof (intro conjI ballI impI)
  fix a assume "a \<in> set ids"
  with assms show "data_m (vecs s' a) < next_addr s'"
    unfolding unshared_def own_step_def by (cases "a = this") force+
next
  fix a b assume "a \<in> set ids" "b \<in> set ids" "a \<noteq> b \<and> data_m (vecs s' a) \<noteq> 0"
  with assms show "data_m (vecs s' a) \<noteq> data_m (vecs s' b)"
    unfolding unshared_def own_step_def
    by (cases "a = this"; cases "b = this") force+
qed

lemma move_iter_Inr:
  "iterate js (\<lambda>i s'. construct_from (f s') (g s') i s') s = Inr s' \<Longrightarrow> same_shape s s'"
  by (erule shape_Inr) (rule iterate_shape, rule construct_from_shape)

lemma move_iter_Inl:
  "iterate js (\<lambda>i s'. construct_from (f s') (g s') i s') s = Inl (e, s') \<Longrightarrow> same_shape s s'"
  by (erule shape_Inl) (rule iterate_shape, rule construct_from_shape)

lemma fill_iter_Inr:
  "iterate js (\<lambda>i s'. construct_at s' (f s', i) d) s = Inr s' \<Longrightarrow> same_shape s s'"
  by (erule shape_Inr) (rule iterate_shape, rule construct_at_shape)

lemma fill_iter_Inl:
  "iterate js (\<lambda>i s'. construct_at s' (f s', i) d) s = Inl (e, s') \<Longrightarrow> same_shape s s'"
  by (erule shape_Inl) (rule iterate_shape, rule construct_at_shape)

lemma destroy_n_Inr: "destroy_n s q n = Inr s' \<Longrightarrow> same_shape s s'"
  by (erule shape_Inr) (rule destroy_n_shape)

lemma destroy_n_Inl: "destroy_n s q n = Inl (e, s') \<Longrightarrow> same_shape s s'"
  by (erule shape_Inl) (rule destroy_n_shape)

lemma deallocate_Inr: "deallocate s p n = Inr s' \<Longrightarrow> same_objects s s'"
  using deallocate_objects [of s p n] by (simp add: state_of_def)

lemma deallocate_Inl: "deallocate s p n = Inl (e, s') \<Longrightarrow> same_objects s s'"
  using deallocate_objects [of s p n] by (simp add: state_of_def)

lemma construct_at_Inr: "construct_at s q v = Inr s' \<Longrightarrow> same_shape s s'"
  by (erule shape_Inr) (rule construct_at_shape)

lemma construct_at_Inl: "construct_at s q v = Inl (e, s') \<Longrightarrow> same_shape s s'"
  by (erule shape_Inl) (rule construct_at_shape)

lemmas frames = move_iter_Inr move_iter_Inl fill_iter_Inr fill_iter_Inl destroy_n_Inr
  destroy_n_Inl deallocate_Inr deallocate_Inl construct_at_Inr construct_at_Inl

lemma resize_same: "resize d s this (size_m (vecs s this)) = Inr s"
  by (simp add: resize.simps [of d s this "size_m (vecs s this)"] set_size_same)

lemma reserve_own_step: "own_step this s (state_of (reserve d s this n))"
  by (auto simp add: reserve.simps [of d s this n] resize_same allocate_def state_of_def
      own_step_def same_shape_def same_objects_def set_data_def set_capacity_def
      split: sum.splits dest!: frames)

lemma reserve_Inr_own: "reserve d s this n = Inr s' \<Longrightarrow> own_step this s s'"
  using reserve_own_step [of this s d n] by (simp add: state_of_def)

lemma reserve_Inl_own: "reserve d s this n = Inl (e, s') \<Longrightarrow> own_step this s s'"
  using reserve_own_step [of this s d n] by (simp add: state_of_def)

lemma same_shape_own_step: "same_shape s s' \<Longrightarrow> own_step this s s'"
  by (simp add: same_shape_def own_step_def)

lemma set_size_own_step: "own_step this s (set_size this n s)"
  by (simp add: own_step_def set_size_def)

lemma resize_own_step: "own_step this s (state_of (resize d s this n))"
proof -
  have tail: "own_step this s1 (state_of
      (case (if n < size_m (vecs s1 this)
             then destroy_n s1 (data_m (vecs s1 this), n) (size_m (vecs s1 this) - n)
             else Inr s1) of
         Inl e \<Rightarrow> Inl e
       | Inr s3 \<Rightarrow> Inr (set_size this n s3)))" for s1
    by (auto simp add: state_of_def set_size_own_step split: sum.splits
        dest!: destroy_n_Inr destroy_n_Inl
        intro: same_shape_own_step own_step_trans [OF same_shape_own_step set_size_own_step])
  have head: "own_step this s (state_of
      (if n > size_m (vecs s this) then
         (case (if n > capacity_m (vecs s this) then reserve d s this n else Inr s) of
            Inl e \<Rightarrow> Inl e
          | Inr s1 \<Rightarrow>
              iterate [size_m (vecs s1 this) ..< n]
                (\<lambda>i s'. construct_at s' (data_m (vecs s' this), i) d) s1)
       else Inr s))"
    by (auto simp add: state_of_def own_step_refl split: sum.splits
        dest!: fill_iter_Inr fill_iter_Inl reserve_Inr_own reserve_Inl_own
        intro: same_shape_own_step own_step_trans [OF _ same_shape_own_step])
  show ?thesis
  proof (cases "(if n > size_m (vecs s this) then
         (case (if n > capacity_m (vecs s this) then reserve d s this n else Inr s) of
            Inl e \<Rightarrow> Inl e
          | Inr s1 \<Rightarrow>
              iterate [size_m (vecs s1 this) ..< n]
                (\<lambda>i s'. construct_at s' (data_m (vecs s' this), i) d) s1)
       else Inr s)")
    case (Inl e)
    with head show ?thesis
      by (simp add: resize.simps [of d s this n])
  next
    case (Inr s2)
    with head have "own_step this s s2" by (simp add: state_of_def)
    from own_step_trans [OF this tail [of s2]] Inr show ?thesis
      by (simp add: resize.simps [of d s this n])
  qed
qed

lemma own_step_seq:
  assumes "own_step this s (state_of r)" and "\<And>s1. own_step this s1 (state_of (k s1))"
  shows "own_step this s (state_of (case r of Inl e \<Rightarrow> Inl e | Inr s1 \<Rightarrow> k s1))"
proof (cases r)
  case (Inl e)
  with assms(1) show ?thesis by simp
next
  case (Inr s1)
  with assms(1) have "own_step this s s1" by (simp add: state_of_def)
  from own_step_trans [OF this assms(2) [of s1]] Inr show ?thesis by simp
qed

lemma own_step_if:
  "own_step this s (state_of r) \<Longrightarrow> own_step this s (state_of (if b then r else Inr s))"
  by (simp add: state_of_def own_step_refl)

lemma emplace_back_tail_own_step:
  "own_step this s (state_of
     (case forward_arg s a of
        Inl e \<Rightarrow> Inl (e, s)
      | Inr x \<Rightarrow>
          (case construct_at s (end_v s this) x of
             Inl e \<Rightarrow> Inl e
           | Inr s3 \<Rightarrow> Inr (set_size this (size_t (size_m (vecs s3 this) + 1)) s3))))"
proof (cases "forward_arg s a")
  case (Inl e)
  then show ?thesis by (simp add: state_of_def own_step_refl)
next
  case (Inr x)
  have "own_step this s (state_of
     (case construct_at s (end_v s this) x of
        Inl e \<Rightarrow> Inl e
      | Inr s3 \<Rightarrow> Inr (set_size this (size_t (size_m (vecs s3 this) + 1)) s3)))"
  proof (intro own_step_seq)
    show "own_step this s (state_of (construct_at s (end_v s this) x))"
      by (rule same_shape_own_step) (rule construct_at_shape)
  next
    fix s1 :: "'a state"
    show "own_step this s1 (state_of (Inr (set_size this (size_t (size_m (vecs s1 this) + 1)) s1)))"
      by (simp add: state_of_def set_size_own_step)
  qed
  with Inr show ?thesis by simp
qed

lemma emplace_back_own_step: "own_step this s (state_of (emplace_back d s this a))"
  unfolding emplace_back_def
  by (intro own_step_seq own_step_if reserve_own_step emplace_back_tail_own_step)

lemma vector_t_default_own_step: "own_step this s (state_of (vector_t_default s this))"
  by (simp add: vector_t_default_def state_of_def own_step_def)

lemma vector_t_sized_own_step: "own_step this s (state_of (vector_t_sized d s this n))"
  by (auto simp add: vector_t_sized_def Let_def allocate_def state_of_def
      own_step_def same_shape_def set_data_def set_size_def set_capacity_def
      split: sum.splits dest!: frames)

lemma vector_t_copy_own_step: "own_step this s (state_of (vector_t_copy s this other))"
  by (auto simp add: vector_t_copy_def Let_def allocate_def state_of_def
      own_step_def same_shape_def set_data_def set_size_def set_capacity_def
      split: sum.splits dest!: frames)

lemma copy_assign_own_step: "own_step this s (state_of (copy_assign s this other))"
  by (auto simp add: copy_assign_def Let_def allocate_def state_of_def
      own_step_def same_shape_def set_data_def set_size_def set_capacity_def
      split: sum.splits dest!: frames)

lemma vector_t_dtor_own_step: "own_step this s (state_of (vector_t_dtor s this))"
  by (auto simp add: vector_t_dtor_def state_of_def
      own_step_def same_shape_def same_objects_def set_data_def
      split: sum.splits dest!: frames)

lemma assign_index_own_step: "own_step this s (state_of (assign_index s this i x))"
  by (auto simp add: assign_index_def state_of_def
      own_step_def same_shape_def split: sum.splits dest!: frames)

lemma vector_t_move_unshared:
  assumes "unshared ids s" and "this \<in> set ids" and "other \<in> set ids"
  shows "unshared ids (state_of (vector_t_move s this other))"
proof (cases "avail s < capacity_m (vecs s other)")
  case True
  then have "state_of (vector_t_move s this other) =
      set_capacity this (capacity_m (vecs s other)) (set_size this (size_m (vecs s other)) s)"
    by (auto simp add: vector_t_move_def Let_def allocate_def noexcept_def state_of_def
        set_capacity_def set_size_def)
  with assms(1) show ?thesis
    by (simp add: unshared_def set_capacity_def set_size_def)
next
  case False
  then have v: "vecs (state_of (vector_t_move s this other)) =
      (vecs s)(this := \<lparr>data_m = data_m (vecs s other), size_m = size_m (vecs s other),
                          capacity_m = capacity_m (vecs s other)\<rparr>,
               other := \<lparr>data_m = 0, size_m = 0, capacity_m = capacity_m (vecs s other)\<rparr>)"
    and n: "next_addr (state_of (vector_t_move s this other)) = Suc (next_addr s)"
    by (auto simp add: vector_t_move_def Let_def allocate_def noexcept_def state_of_def
        set_capacity_def set_size_def set_data_def)
  show ?thesis
    unfolding unshared_def v n using assms
    by (auto simp add: unshared_def less_Suc_eq)
qed

lemma move_assign_unshared:
  assumes "unshared ids s" and "this \<in> set ids" and "other \<in> set ids"
  shows "unshared ids (state_of (move_assign s this other))"
proof (cases "avail s < capacity_m (vecs s other)")
  case True
  then have "state_of (move_assign s this other) =
      set_capacity this (capacity_m (vecs s other)) (set_size this (size_m (vecs s other)) s)"
    by (auto simp add: move_assign_def Let_def allocate_def noexcept_def state_of_def
        set_capacity_def set_size_def)
  with assms(1) show ?thesis
    by (simp add: unshared_def set_capacity_def set_size_def)
next
  case False
  then have v: "vecs (state_of (move_assign s this other)) =
      (vecs s)(this := \<lparr>data_m = data_m (vecs s other), size_m = size_m (vecs s other),
                          capacity_m = capacity_m (vecs s other)\<rparr>,
               other := \<lparr>data_m = 0, size_m = 0, capacity_m = capacity_m (vecs s other)\<rparr>)"
    and n: "next_addr (state_of (move_assign s this other)) = Suc (next_addr s)"
    by (auto simp add: move_assign_def Let_def allocate_def noexcept_def state_of_def
        set_capacity_def set_size_def set_data_def)
  show ?thesis
    unfolding unshared_def v n using assms
    by (auto simp add: unshared_def less_Suc_eq)
qed

lemma exec_unshared:
  assumes "unshared ids s" and "set (objects c) \<subseteq> set ids"
  shows "unshared ids (state_of (exec d s c))"
proof (cases c)
  case (Move_ctor this other)
  with assms vector_t_move_unshared [of ids s this other] show ?thesis by simp
next
  case (Move_assign this other)
  with assms move_assign_unshared [of ids s this other] show ?thesis by simp
qed (use assms(1) in \<open>auto intro: own_step_unshared vector_t_default_own_step
      vector_t_sized_own_step vector_t_copy_own_step copy_assign_own_step reserve_own_step
      resize_own_step emplace_back_own_step assign_index_own_step vector_t_dtor_own_step\<close>)

lemma assign_index_elsewhere:
  assumes "unshared ids s" and "a \<in> set ids" and "b \<in> set ids" and "a \<noteq> b"
    and "assign_index s a i x = Inr s'"
  shows "index_v s' b j = index_v s b j"
proof -
  from assms(5) have nz: "data_m (vecs s a) \<noteq> 0"
    by (auto simp add: assign_index_def load_def block_at_def split: sum.splits if_splits)
  with assms(1-4) have ne: "data_m (vecs s a) \<noteq> data_m (vecs s b)"
    by (simp add: unshared_def)
  from assms(5) have "vecs s' = vecs s"
    and "\<forall>p. p \<noteq> data_m (vecs s a) \<longrightarrow> blocks s' p = blocks s p"
    by (auto simp add: assign_index_def construct_at_def block_at_def
        split: sum.splits option.splits if_splits)
  with ne show ?thesis
    by (simp add: index_v_def load_def block_at_def)
qed

section \<open>Regions of capacity 0\<close>

lemma same_shape_empty_region: "same_shape s s' \<Longrightarrow> empty_region s v \<Longrightarrow> empty_region s' v"
  unfolding same_shape_def empty_region_def
  by (metis length_0_conv list.size(3) map_option_eq_Some)

lemma set_size_empty_region: "empty_region (set_size this n s) v = empty_region s v"
  by (simp add: empty_region_def set_size_def)

lemma reserve_empty_region:
  "reserve d s this n = Inr s' \<Longrightarrow> empty_region s this \<Longrightarrow> empty_region s' this"
  by (auto simp add: reserve.simps [of d s this n] resize_same empty_region_def
      set_capacity_def set_data_def split: sum.splits if_splits)

lemma resize_empty_region:
  assumes "resize d s this n = Inr s'" and "empty_region s this"
  shows "empty_region s' this"
proof -
  let ?H = "if n > size_m (vecs s this) then
         (case (if n > capacity_m (vecs s this) then reserve d s this n else Inr s) of
            Inl e \<Rightarrow> Inl e
          | Inr s1 \<Rightarrow>
              iterate [size_m (vecs s1 this) ..< n]
                (\<lambda>i s'. construct_at s' (data_m (vecs s' this), i) d) s1)
       else Inr s"
  from assms(1) obtain s2 where h: "?H = Inr s2"
    and t: "(case (if n < size_m (vecs s2 this)
                   then destroy_n s2 (data_m (vecs s2 this), n) (size_m (vecs s2 this) - n)
                   else Inr s2) of
               Inl e \<Rightarrow> Inl e
             | Inr s3 \<Rightarrow> Inr (set_size this n s3)) = Inr s'"
    by (cases ?H) (simp_all add: resize.simps [of d s this n])
  from h assms(2) have "empty_region s2 this"
    by (auto split: if_splits sum.splits dest!: fill_iter_Inr
        dest: reserve_empty_region same_shape_empty_region)
  with t show ?thesis
    by (auto split: if_splits sum.splits dest!: destroy_n_Inr
        simp add: set_size_empty_region dest: same_shape_empty_region)
qed

lemma emplace_back_empty_region:
  assumes "emplace_back d s this a = Inr s'" and "empty_region s this"
  shows "empty_region s' this"
proof -
  let ?A = "if size_m (vecs s this) = capacity_m (vecs s this)
         then reserve d s this (size_t (2 * capacity_m (vecs s this))) else Inr s"
  from assms(1) obtain s1 where a: "?A = Inr s1"
    and r1: "(case (if capacity_m (vecs s1 this) = 0 then reserve d s1 this 16 else Inr s1) of
             Inl e \<Rightarrow> Inl e
           | Inr s2 \<Rightarrow>
               (case forward_arg s2 a of
                  Inl e \<Rightarrow> Inl (e, s2)
                | Inr x \<Rightarrow>
                    (case construct_at s2 (end_v s2 this) x of
                       Inl e \<Rightarrow> Inl e
                     | Inr s3 \<Rightarrow>
                         Inr (set_size this (size_t (size_m (vecs s3 this) + 1)) s3)))) = Inr s'"
    by (cases ?A) (simp_all add: emplace_back_def)
  let ?B = "if capacity_m (vecs s1 this) = 0 then reserve d s1 this 16 else Inr s1"
  from r1 obtain s2 where b: "?B = Inr s2"
    and r2: "(case forward_arg s2 a of
                Inl e \<Rightarrow> Inl (e, s2)
              | Inr x \<Rightarrow>
                  (case construct_at s2 (end_v s2 this) x of
                     Inl e \<Rightarrow> Inl e
                   | Inr s3 \<Rightarrow>
                       Inr (set_size this (size_t (size_m (vecs s3 this) + 1)) s3))) = Inr s'"
    by (cases ?B) simp_all
  from a assms(2) have "empty_region s1 this"
    by (auto split: if_splits dest: reserve_empty_region)
  with b have "empty_region s2 this"
    by (auto split: if_splits dest: reserve_empty_region)
  with r2 show ?thesis
    by (auto split: sum.splits dest!: construct_at_Inr
        simp add: set_size_empty_region dest: same_shape_empty_region)
qed

lemma zero_slot_copy:
  assumes "size_m (vecs s other) = 0" and "capacity_m (vecs s other) = 0"
  shows "\<exists>s'. vector_t_copy s this other = Inr s' \<and>
           capacity_m (vecs s' this) = 0 \<and> data_m (vecs s' this) = next_addr s \<and>
           blocks s' (next_addr s) = Some [] \<and> n_alloc s' = Suc (n_alloc s)"
    and "\<exists>s'. copy_assign s this other = Inr s' \<and>
           capacity_m (vecs s' this) = 0 \<and> data_m (vecs s' this) = next_addr s \<and>
           blocks s' (next_addr s) = Some [] \<and> n_alloc s' = Suc (n_alloc s)"
  using assms
  by (auto simp add: vector_t_copy_def copy_assign_def Let_def allocate_def
      set_size_def set_capacity_def set_data_def)

lemma zero_slot_sized:
  "\<exists>s'. vector_t_sized d s this 0 = Inr s' \<and>
           capacity_m (vecs s' this) = 0 \<and> data_m (vecs s' this) = next_addr s \<and>
           blocks s' (next_addr s) = Some [] \<and> n_alloc s' = Suc (n_alloc s)"
  by (simp add: vector_t_sized_def Let_def allocate_def
      set_size_def set_capacity_def set_data_def)

lemma copy_empty_region:
  assumes "empty_region s other"
  shows "vector_t_copy s this other = Inr s' \<Longrightarrow> empty_region s' this \<and> empty_region s' other"
    and "copy_assign s this other = Inr s' \<Longrightarrow> empty_region s' this \<and> empty_region s' other"
proof -
  let ?c = "capacity_m (vecs s other)"
  let ?s4 = "set_data this (next_addr s)
      ((set_capacity this ?c (set_size this (size_m (vecs s other)) s))
         \<lparr>blocks := (blocks s)(next_addr s := Some (replicate ?c None)),
          next_addr := Suc (next_addr s), avail := avail s - ?c, n_alloc := Suc (n_alloc s)\<rparr>)"
  have e4: "empty_region ?s4 this \<and> empty_region ?s4 other"
    using assms
    by (auto simp add: empty_region_def set_data_def set_capacity_def set_size_def)
  {
    assume "vector_t_copy s this other = Inr s'"
    then have "same_shape ?s4 s'"
      by (auto simp add: vector_t_copy_def Let_def allocate_def set_size_def set_capacity_def
          set_data_def split: if_splits dest!: move_iter_Inr)
    with e4 show "empty_region s' this \<and> empty_region s' other"
      by (blast intro: same_shape_empty_region)
  }
  {
    assume "copy_assign s this other = Inr s'"
    then have "same_shape ?s4 s'"
      by (auto simp add: copy_assign_def Let_def allocate_def set_size_def set_capacity_def
          set_data_def split: if_splits dest!: move_iter_Inr)
    with e4 show "empty_region s' this \<and> empty_region s' other"
      by (blast intro: same_shape_empty_region)
  }
qed

lemma move_empty_region:
  assumes "empty_region s other"
  shows "vector_t_move s this other = Inr s' \<Longrightarrow> empty_region s' this \<and> empty_region s' other"
    and "move_assign s this other = Inr s' \<Longrightarrow> empty_region s' this \<and> empty_region s' other"
  using assms
  by (auto simp add: vector_t_move_def move_assign_def Let_def allocate_def noexcept_def
      empty_region_def set_size_def set_capacity_def set_data_def split: if_splits)

lemma sized_empty_region:
  assumes "vector_t_sized d s this n = Inr s'"
  shows "empty_region s' this"
proof -
  let ?s3 = "set_data this (next_addr s)
      ((set_capacity this n (set_size this n s))
         \<lparr>blocks := (blocks s)(next_addr s := Some (replicate n None)),
          next_addr := Suc (next_addr s), avail := avail s - n, n_alloc := Suc (n_alloc s)\<rparr>)"
  have "empty_region ?s3 this"
    by (simp add: empty_region_def set_data_def set_capacity_def set_size_def)
  moreover from assms have "same_shape ?s3 s'"
    by (auto simp add: vector_t_sized_def Let_def allocate_def set_size_def set_capacity_def
        set_data_def split: if_splits dest!: fill_iter_Inr)
  ultimately show ?thesis
    by (rule same_shape_empty_region [rotated])
qed

lemma dtor_empty_region:
  "vector_t_dtor s this = Inr s' \<Longrightarrow> empty_region s' this"
  by (auto simp add: vector_t_dtor_def empty_region_def set_data_def split: if_splits sum.splits)

lemma assign_index_empty_region:
  "assign_index s this i x = Inr s' \<Longrightarrow> empty_region s this \<Longrightarrow> empty_region s' this"
  by (auto simp add: assign_index_def split: sum.splits
      dest!: construct_at_Inr intro: same_shape_empty_region)

lemma exec_empty_region:
  assumes "\<forall>v \<in> set (objects c). empty_region s v" and "exec d s c = Inr s'"
  shows "\<forall>v \<in> set (objects c). empty_region s' v"
proof (cases c)
  case (Default_ctor this)
  with assms show ?thesis by (auto simp add: vector_t_default_def empty_region_def)
next
  case (Sized_ctor this n)
  with assms show ?thesis by (auto dest: sized_empty_region)
next
  case (Copy_ctor this other)
  with assms copy_empty_region(1) [of s other this s'] show ?thesis by auto
next
  case (Move_ctor this other)
  with assms move_empty_region(1) [of s other this s'] show ?thesis by auto
next
  case (Copy_assign this other)
  with assms copy_empty_region(2) [of s other this s'] show ?thesis by auto
next
  case (Move_assign this other)
  with assms move_empty_region(2) [of s other this s'] show ?thesis by auto
next
  case (Reserve this n)
  with assms show ?thesis by (auto dest: reserve_empty_region)
next
  case (Resize this n)
  with assms show ?thesis by (auto dest: resize_empty_region)
next
  case (Emplace_back this x)
  with assms show ?thesis by (auto dest: emplace_back_empty_region)
next
  case (Emplace_back_ref this other i)
  with assms show ?thesis by (auto dest: emplace_back_empty_region)
next
  case (Assign_index this i x)
  with assms show ?thesis by (auto dest: assign_index_empty_region)
next
  case (Dtor this)
  with assms show ?thesis by (auto dest: dtor_empty_region)
qed

section \<open>Copy assignment and the destination's Region\<close>

text \<open>
  C1. Copy assignment is to destroy the destination's live elements and release its
  Region before it acquires the new one, so that every acquired Region is released
  exactly once. The code does not: a vector of 4 elements (block 1) is assigned a
  vector of 8 elements (block 2), then both are destroyed. The assignment allocates
  block 3 without touching block 1; after both destructors block 1 is still allocated
  with its 4 live elements, and 3 allocations stand against 2 deallocations.
\<close>

theorem copy_assign_leaks_destination:
  "outcome [0, 1] [1, 2, 3]
     (run (7::nat) (init 100)
        [Sized_ctor 0 4, Sized_ctor 1 8, Copy_assign 0 1, Dtor 0, Dtor 1]) =
   Inr ([\<lparr>data_m = 0, size_m = 8, capacity_m = 8\<rparr>,
         \<lparr>data_m = 0, size_m = 8, capacity_m = 8\<rparr>],
        [Some [Some 7, Some 7, Some 7, Some 7], None, None], 3, 2)"
  by (simp add: ev)

section \<open>Self-assignment\<close>

text \<open>
  C2. Assigning a vector to itself is to leave it as it was. The code has no identity
  test. A vector holding 5 and 6 in block 1 is copy-assigned to itself: \<open>_data\<close> is
  replaced by the fresh block 2 before the loop reads \<open>other._data\<close>, which is the same
  member, so the first element is copy-constructed from raw storage, and block 1 is
  lost. Move-assigned to itself, the vector ends with a null Region and size 0, while
  block 1 with its two live elements and the fresh block 2 stay allocated.
\<close>

theorem self_assignment_corrupts:
  "outcome [0] [1, 2]
     (run (0::nat) (init 100) [Emplace_back 0 5, Emplace_back 0 6, Copy_assign 0 0]) =
   Inl (Uninitialized, [\<lparr>data_m = 2, size_m = 2, capacity_m = 16\<rparr>],
        [Some [Some 5, Some 6, None, None, None, None, None, None,
               None, None, None, None, None, None, None, None],
         Some [None, None, None, None, None, None, None, None,
               None, None, None, None, None, None, None, None]], 2, 0) \<and>
   outcome [0] [1, 2]
     (run (0::nat) (init 100) [Emplace_back 0 5, Emplace_back 0 6, Move_assign 0 0]) =
   Inr ([\<lparr>data_m = 0, size_m = 0, capacity_m = 16\<rparr>],
        [Some [Some 5, Some 6, None, None, None, None, None, None,
               None, None, None, None, None, None, None, None],
         Some [None, None, None, None, None, None, None, None,
               None, None, None, None, None, None, None, None]], 2, 0)"
  by (simp add: ev)

section \<open>Moving a vector\<close>

text \<open>
  C3. Move construction and move assignment are to adopt the source's Region without
  any allocation, and move assignment is to release the destination's Region first.
  In the code both call \<open>allocate(_capacity)\<close> and overwrite the pointer they get.
  Moving a vector of 2 elements (block 1) into a new vector allocates block 2, which no
  vector refers to afterwards. Move-assigning it to a vector of 3 elements (block 2)
  allocates block 3; after both destructors block 2 still holds its 3 live elements,
  block 3 is still allocated, and 3 allocations stand against 1 deallocation.
\<close>

theorem move_allocates_and_leaks:
  "outcome [0, 1] [1, 2]
     (run (7::nat) (init 100) [Sized_ctor 0 2, Move_ctor 1 0]) =
   Inr ([\<lparr>data_m = 0, size_m = 0, capacity_m = 2\<rparr>,
         \<lparr>data_m = 1, size_m = 2, capacity_m = 2\<rparr>],
        [Some [Some 7, Some 7], Some [None, None]], 2, 0) \<and>
   outcome [0, 1] [1, 2, 3]
     (run (7::nat) (init 100)
        [Sized_ctor 0 2, Sized_ctor 1 3, Move_assign 1 0, Dtor 0, Dtor 1]) =
   Inr ([\<lparr>data_m = 0, size_m = 0, capacity_m = 2\<rparr>,
         \<lparr>data_m = 0, size_m = 2, capacity_m = 2\<rparr>],
        [None, Some [Some 7, Some 7, Some 7], Some [None, None]], 3, 1)"
  by (simp add: ev)

text \<open>
  C10. After move construction or move assignment the source has a null data pointer
  and size 0, so its destructor changes nothing: no element is destroyed and nothing is
  deallocated. Its capacity member keeps the value it had before the move. (Both
  operations allocate \<open>_capacity\<close> slots on the way, hence the premise.)
\<close>

theorem moved_from_source:
  assumes "capacity_m (vecs s other) \<le> avail s"
  shows "(\<exists>s'. vector_t_move s this other = Inr s' \<and>
            data_m (vecs s' other) = 0 \<and> size_m (vecs s' other) = 0 \<and>
            capacity_m (vecs s' other) = capacity_m (vecs s other) \<and>
            vector_t_dtor s' other = Inr s') \<and>
         (\<exists>s'. move_assign s this other = Inr s' \<and>
            data_m (vecs s' other) = 0 \<and> size_m (vecs s' other) = 0 \<and>
            capacity_m (vecs s' other) = capacity_m (vecs s other) \<and>
            vector_t_dtor s' other = Inr s')"
  using assms
  by (auto simp add: vector_t_move_def move_assign_def noexcept_def allocate_def Let_def
      set_data_def set_size_def set_capacity_def vector_t_dtor_def)

theorem moved_from_source_witness:
  "capacity_m (vecs (state_of (run (7::nat) (init 100) [Sized_ctor 0 2])) 0)
     \<le> avail (state_of (run (7::nat) (init 100) [Sized_ctor 0 2])) \<and>
   (\<exists>s'. vector_t_move (state_of (run (7::nat) (init 100) [Sized_ctor 0 2])) 1 0 = Inr s' \<and>
      data_m (vecs s' 0) = 0 \<and> size_m (vecs s' 0) = 0 \<and> capacity_m (vecs s' 0) = 2 \<and>
      vector_t_dtor s' 0 = Inr s')"
proof -
  have cap: "capacity_m (vecs (state_of (run (7::nat) (init 100) [Sized_ctor 0 2])) 0) = 2"
    by (simp add: ev)
  have av: "avail (state_of (run (7::nat) (init 100) [Sized_ctor 0 2])) = 98"
    by (simp add: ev)
  have le: "capacity_m (vecs (state_of (run (7::nat) (init 100) [Sized_ctor 0 2])) 0)
     \<le> avail (state_of (run (7::nat) (init 100) [Sized_ctor 0 2]))"
    unfolding cap av by simp
  show ?thesis
    using moved_from_source [OF le, of 1] le unfolding cap by blast
qed

section \<open>Reserving within the capacity\<close>

text \<open>
  What \<open>reserve(n)\<close> does for \<open>n \<le> capacity\<close>: it returns and leaves the size and every
  element as they were. For \<open>size \<le> n\<close> the whole state is unchanged. For \<open>n < size\<close>
  the member \<open>_capacity\<close> is set to the size, while no buffer is allocated or released.
\<close>

lemma reserve_within_capacity:
  assumes "new_capacity \<le> capacity_m (vecs s this)"
  shows "\<exists>s'. reserve d s this new_capacity = Inr s' \<and>
           size_m (vecs s' this) = size_m (vecs s this) \<and>
           (\<forall>i. index_v s' this i = index_v s this i) \<and>
           (size_m (vecs s this) \<le> new_capacity \<longrightarrow> s' = s) \<and>
           (new_capacity < size_m (vecs s this) \<longrightarrow>
              capacity_m (vecs s' this) = size_m (vecs s this) \<and> blocks s' = blocks s)"
  using assms
  by (auto simp add: reserve.simps resize.simps set_size_def set_capacity_def index_v_def
      load_def block_at_def split: option.splits)

text \<open>
  On a valid container with \<open>n < size < capacity\<close>, \<open>reserve(n)\<close> therefore leaves a
  capacity member that is smaller than the buffer, and the destructor then calls
  \<open>deallocate\<close> with a size that is not the size of the allocation.
\<close>

lemma reserve_below_size_then_dtor:
  assumes h: "holds s this xs cap" and lt: "n < length xs" and slack: "length xs < cap"
  shows "\<exists>s1 s2. reserve d s this n = Inr s1 \<and>
           capacity_m (vecs s1 this) = length xs \<and> blocks s1 = blocks s \<and>
           vector_t_dtor s1 this = Inl (BadFree, s2)"
proof -
  from h have sz: "size_m (vecs s this) = length xs"
    by (simp add: holds_def)
  let ?p = "data_m (vecs s this)"
  let ?s1 = "set_capacity this (size_m (vecs s this)) s"
  have c: "n < size_m (vecs s this)"
    using lt sz by simp
  have r: "reserve d s this n = Inr ?s1"
    by (simp only: reserve.simps [of d s this n] c if_True resize_same sum.case)
  from slack have cpos: "0 < cap" by simp
  have p0: "?p \<noteq> 0" by (rule holds_data_nonnull [OF h cpos])
  have blk: "blocks ?s1 ?p = Some ([] @ map Some xs @ replicate (cap - length xs) None)"
    using holds_block [OF h cpos] by (simp add: set_capacity_def)
  let ?s2 = "?s1\<lparr>blocks := (blocks ?s1)(?p :=
      Some ([] @ replicate (length xs) None @ replicate (cap - length xs) None))\<rparr>"
  have "iterate [length ([]::'a option list) ..< length ([]::'a option list) + length xs]
          (\<lambda>i s'. destroy_at s' (?p, i)) ?s1 = Inr ?s2"
    by (rule destroy_loop [OF p0 blk])
  then have d1: "destroy_n ?s1 (data_m (vecs ?s1 this), 0) (size_m (vecs ?s1 this)) = Inr ?s2"
    using sz by (simp add: destroy_n_def set_capacity_def)
  have d2: "deallocate ?s2 (data_m (vecs ?s2 this)) (capacity_m (vecs ?s2 this)) = Inl (BadFree, ?s2)"
    using p0 sz slack by (simp add: deallocate_def set_capacity_def)
  have nz: "data_m (vecs ?s1 this) \<noteq> 0"
    using p0 by (simp add: set_capacity_def)
  have "vector_t_dtor ?s1 this = Inl (BadFree, ?s2)"
    by (simp only: vector_t_dtor_def nz not_False_eq_True if_True d1 d2 sum.case)
  moreover have "capacity_m (vecs ?s1 this) = length xs" "blocks ?s1 = blocks s"
    using sz by (simp_all add: set_capacity_def)
  ultimately show ?thesis
    using r by blast
qed

text \<open>
  C4. \<open>reserve(n)\<close> with \<open>n \<le> capacity\<close> is to change nothing, also for \<open>n < size\<close>. In
  the code the branch for \<open>n < size\<close> assigns \<open>_capacity = _size\<close> and leaves the buffer
  alone. Three insertions give size 3 and capacity 16 on block 1 of 16 slots;
  \<open>reserve(2)\<close> then sets the capacity to 3 while block 1 keeps its 16 slots; the
  destructor destroys the 3 elements and calls \<open>deallocate\<close> with size 3 on the block of
  16 slots.
\<close>

theorem reserve_below_size_breaks_capacity:
  "outcome [0] [1]
     (run (0::nat) (init 100) [Emplace_back 0 5, Emplace_back 0 6, Emplace_back 0 7]) =
   Inr ([\<lparr>data_m = 1, size_m = 3, capacity_m = 16\<rparr>],
        [Some [Some 5, Some 6, Some 7, None, None, None, None, None,
               None, None, None, None, None, None, None, None]], 1, 0) \<and>
   outcome [0] [1]
     (run (0::nat) (init 100)
        [Emplace_back 0 5, Emplace_back 0 6, Emplace_back 0 7, Reserve 0 2]) =
   Inr ([\<lparr>data_m = 1, size_m = 3, capacity_m = 3\<rparr>],
        [Some [Some 5, Some 6, Some 7, None, None, None, None, None,
               None, None, None, None, None, None, None, None]], 1, 0) \<and>
   outcome [0] [1]
     (run (0::nat) (init 100)
        [Emplace_back 0 5, Emplace_back 0 6, Emplace_back 0 7, Reserve 0 2, Dtor 0]) =
   Inl (BadFree, [\<lparr>data_m = 1, size_m = 3, capacity_m = 3\<rparr>],
        [Some [None, None, None, None, None, None, None, None,
               None, None, None, None, None, None, None, None]], 1, 0)"
  by (simp add: ev)

section \<open>Allocation failure\<close>

text \<open>
  The loops, \<open>deallocate\<close> and the element operations never throw \<open>std::bad_alloc\<close>, and
  \<open>reserve\<close> allocates before it changes anything. So when \<open>reserve\<close>, \<open>resize\<close> or
  \<open>emplace_back\<close> ends with \<open>std::bad_alloc\<close>, the whole state is as before the call.
\<close>

lemma iterate_error:
  assumes "\<And>i s e s'. f i s = Inl (e, s') \<Longrightarrow> e \<noteq> BadAlloc"
  shows "iterate js f s = Inl (e, s') \<Longrightarrow> e \<noteq> BadAlloc"
proof (induction js arbitrary: s)
  case Nil
  then show ?case by simp
next
  case (Cons j js)
  then show ?case
    by (cases "f j s") (auto dest: assms)
qed

lemma construct_at_error: "construct_at s q v = Inl (e, s') \<Longrightarrow> e \<noteq> BadAlloc"
  by (auto simp add: construct_at_def split: option.splits if_splits)

lemma destroy_at_error: "destroy_at s q = Inl (e, s') \<Longrightarrow> e \<noteq> BadAlloc"
  by (auto simp add: destroy_at_def split: option.splits if_splits)

lemma construct_from_error: "construct_from dst src i s = Inl (e, s') \<Longrightarrow> e \<noteq> BadAlloc"
  by (auto simp add: construct_from_def load_def split: sum.splits option.splits if_splits
      dest: construct_at_error)

lemma destroy_n_error: "destroy_n s q n = Inl (e, s') \<Longrightarrow> e \<noteq> BadAlloc"
  unfolding destroy_n_def by (erule iterate_error [rotated]) (rule destroy_at_error)

lemma deallocate_error: "deallocate s p n = Inl (e, s') \<Longrightarrow> e \<noteq> BadAlloc"
  by (auto simp add: deallocate_def split: option.splits if_splits)

lemma move_iter_error:
  "iterate js (\<lambda>i s'. construct_from (f s') (g s') i s') s = Inl (e, s') \<Longrightarrow> e \<noteq> BadAlloc"
  by (erule iterate_error [rotated]) (rule construct_from_error)

lemma fill_iter_error:
  "iterate js (\<lambda>i s'. construct_at s' (f s', i) d) s = Inl (e, s') \<Longrightarrow> e \<noteq> BadAlloc"
  by (erule iterate_error [rotated]) (rule construct_at_error)

lemma reserve_bad_alloc: "reserve d s this n = Inl (BadAlloc, s') \<Longrightarrow> s' = s"
  by (auto simp add: reserve.simps [of d s this n] resize_same allocate_def
      split: sum.splits if_splits
      dest: move_iter_error destroy_n_error deallocate_error)

lemma reserve_changes_capacity:
  "reserve d s this n = Inr s' \<Longrightarrow> s' = s \<or> 0 < capacity_m (vecs s' this)"
  by (auto simp add: reserve.simps [of d s this n] resize_same
      set_capacity_def set_data_def split: sum.splits if_splits)

lemma resize_bad_alloc: "resize d s this n = Inl (BadAlloc, s') \<Longrightarrow> s' = s"
  by (auto simp add: resize.simps [of d s this n]
      split: sum.splits if_splits
      dest: fill_iter_error destroy_n_error reserve_bad_alloc)

lemma forward_arg_error: "forward_arg s a = Inl e \<Longrightarrow> e \<noteq> BadAlloc"
  by (cases a) (auto simp add: forward_arg_def load_def split: option.splits if_splits)

lemma emplace_back_bad_alloc: "emplace_back d s this a = Inl (BadAlloc, s') \<Longrightarrow> s' = s"
  by (auto simp add: emplace_back_def
      split: sum.splits if_splits
      dest: construct_at_error forward_arg_error reserve_bad_alloc reserve_changes_capacity)


text \<open>
  C5. A failed allocation is to leave the container as it was. In copy assignment the
  code stores the new size and capacity before it allocates. With 2 slots of memory
  left, assigning a vector of 6 elements to a vector of 4 elements throws
  \<open>std::bad_alloc\<close> and leaves the destination with size 6 and capacity 6 on its old
  block of 4 slots.
\<close>

theorem copy_assign_failure_mutates:
  "outcome [0, 1] [1, 2]
     (run (7::nat) (init 12) [Sized_ctor 0 4, Sized_ctor 1 6, Copy_assign 0 1]) =
   Inl (BadAlloc,
        [\<lparr>data_m = 1, size_m = 6, capacity_m = 6\<rparr>,
         \<lparr>data_m = 2, size_m = 6, capacity_m = 6\<rparr>],
        [Some [Some 7, Some 7, Some 7, Some 7],
         Some [Some 7, Some 7, Some 7, Some 7, Some 7, Some 7]], 2, 0)"
  by (simp add: ev)

section \<open>Containers of capacity 0\<close>

text \<open>
  C6, as stated, fails: the sized constructor with size 0 calls \<open>allocate(0)\<close> and
  keeps the pointer it gets, so the vector has capacity 0 and a non-null Region, and
  one allocation was made.
\<close>

theorem sized_zero_allocates_counterexample:
  "outcome [0] [1] (run (7::nat) (init 100) [Sized_ctor 0 0]) =
   Inr ([\<lparr>data_m = 1, size_m = 0, capacity_m = 0\<rparr>], [Some []], 1, 0)"
  by (simp add: ev)


text \<open>
  C6, amended. The default constructor yields the null Region with capacity 0 without
  an allocation. The sized constructor with size 0, and copy construction and copy
  assignment from a container of size 0 and capacity 0, each call the allocator once,
  for 0 slots, and the container holds the Region without slots that the allocator
  returns. A container of capacity 0 has the null Region or a Region without slots, and
  every operation that returns preserves this for the containers it works on.
\<close>

theorem zero_capacity_regions:
  "(\<exists>s1. vector_t_default s this = Inr s1 \<and>
      data_m (vecs s1 this) = 0 \<and> capacity_m (vecs s1 this) = 0 \<and> n_alloc s1 = n_alloc s) \<and>
   (\<exists>s1. vector_t_sized d s this 0 = Inr s1 \<and>
      capacity_m (vecs s1 this) = 0 \<and> data_m (vecs s1 this) = next_addr s \<and>
      blocks s1 (next_addr s) = Some [] \<and> n_alloc s1 = Suc (n_alloc s)) \<and>
   (size_m (vecs s other) = 0 \<and> capacity_m (vecs s other) = 0 \<longrightarrow>
      (\<exists>s1. vector_t_copy s this other = Inr s1 \<and>
         capacity_m (vecs s1 this) = 0 \<and> data_m (vecs s1 this) = next_addr s \<and>
         blocks s1 (next_addr s) = Some [] \<and> n_alloc s1 = Suc (n_alloc s)) \<and>
      (\<exists>s1. copy_assign s this other = Inr s1 \<and>
         capacity_m (vecs s1 this) = 0 \<and> data_m (vecs s1 this) = next_addr s \<and>
         blocks s1 (next_addr s) = Some [] \<and> n_alloc s1 = Suc (n_alloc s))) \<and>
   ((\<forall>v \<in> set (objects c). empty_region s v) \<and> exec d s c = Inr s' \<longrightarrow>
      (\<forall>v \<in> set (objects c). empty_region s' v))"
proof (intro conjI impI)
  show "\<exists>s1. vector_t_default s this = Inr s1 \<and>
      data_m (vecs s1 this) = 0 \<and> capacity_m (vecs s1 this) = 0 \<and> n_alloc s1 = n_alloc s"
    by (simp add: vector_t_default_def)
next
  show "\<exists>s1. vector_t_sized d s this 0 = Inr s1 \<and>
      capacity_m (vecs s1 this) = 0 \<and> data_m (vecs s1 this) = next_addr s \<and>
      blocks s1 (next_addr s) = Some [] \<and> n_alloc s1 = Suc (n_alloc s)"
    by (rule zero_slot_sized)
next
  assume "size_m (vecs s other) = 0 \<and> capacity_m (vecs s other) = 0"
  then show "\<exists>s1. vector_t_copy s this other = Inr s1 \<and>
         capacity_m (vecs s1 this) = 0 \<and> data_m (vecs s1 this) = next_addr s \<and>
         blocks s1 (next_addr s) = Some [] \<and> n_alloc s1 = Suc (n_alloc s)"
    by (intro zero_slot_copy(1)) simp_all
next
  assume "size_m (vecs s other) = 0 \<and> capacity_m (vecs s other) = 0"
  then show "\<exists>s1. copy_assign s this other = Inr s1 \<and>
         capacity_m (vecs s1 this) = 0 \<and> data_m (vecs s1 this) = next_addr s \<and>
         blocks s1 (next_addr s) = Some [] \<and> n_alloc s1 = Suc (n_alloc s)"
    by (intro zero_slot_copy(2)) simp_all
next
  assume "(\<forall>v \<in> set (objects c). empty_region s v) \<and> exec d s c = Inr s'"
  then show "\<forall>v \<in> set (objects c). empty_region s' v"
    using exec_empty_region [of c s d s'] by blast
qed

theorem zero_capacity_regions_witness:
  "size_m (vecs (init 100 :: nat state) 1) = 0 \<and>
   capacity_m (vecs (init 100 :: nat state) 1) = 0 \<and>
   empty_region (init 100 :: nat state) 0 \<and> empty_region (init 100 :: nat state) 1 \<and>
   exec 7 (init 100 :: nat state) (Copy_assign 0 1) =
     Inr (state_of (exec 7 (init 100 :: nat state) (Copy_assign 0 1))) \<and>
   (\<exists>s1. copy_assign (init 100 :: nat state) 0 1 = Inr s1 \<and>
      capacity_m (vecs s1 0) = 0 \<and> data_m (vecs s1 0) = 1 \<and>
      blocks s1 1 = Some [] \<and> n_alloc s1 = 1) \<and>
   empty_region (state_of (exec 7 (init 100 :: nat state) (Copy_assign 0 1))) 0"
proof -
  have z: "size_m (vecs (init 100 :: nat state) 1) = 0 \<and>
      capacity_m (vecs (init 100 :: nat state) 1) = 0"
    by (simp add: init_def)
  have e: "\<forall>v \<in> set (objects (Copy_assign 0 1 :: nat op)). empty_region (init 100 :: nat state) v"
    by (simp add: empty_region_def init_def)
  have r: "exec 7 (init 100 :: nat state) (Copy_assign 0 1) =
      Inr (state_of (exec 7 (init 100 :: nat state) (Copy_assign 0 1)))"
    by (simp add: ev)
  have n: "next_addr (init 100 :: nat state) = 1" "n_alloc (init 100 :: nat state) = 0"
    by (simp_all add: init_def)
  from zero_capacity_regions [of "init 100 :: nat state" 0 7 1 "Copy_assign 0 1"
      "state_of (exec 7 (init 100 :: nat state) (Copy_assign 0 1))"] z e r
  have "\<exists>s1. copy_assign (init 100 :: nat state) 0 1 = Inr s1 \<and>
      capacity_m (vecs s1 0) = 0 \<and> data_m (vecs s1 0) = next_addr (init 100 :: nat state) \<and>
      blocks s1 (next_addr (init 100 :: nat state)) = Some [] \<and>
      n_alloc s1 = Suc (n_alloc (init 100 :: nat state))"
    and "\<forall>v \<in> set (objects (Copy_assign 0 1 :: nat op)).
      empty_region (state_of (exec 7 (init 100 :: nat state) (Copy_assign 0 1))) v"
    by blast+
  moreover have "empty_region (init 100 :: nat state) 0 \<and> empty_region (init 100 :: nat state) 1"
    using e by simp
  ultimately show ?thesis
    using z r unfolding n by simp
qed

section \<open>Appending\<close>

text \<open>
  C7, as stated, fails: not every sequence of \<open>emplace_back\<close> calls on an initially empty
  container reads back the inserted values. Sixteen insertions fill block 1 of 16
  slots. The seventeenth call is \<open>v.emplace_back(v[0])\<close>: it finds \<open>size = capacity\<close>,
  \<open>reserve(32)\<close> moves the elements to block 2, destroys the old elements and
  deallocates block 1, and only then is the new element constructed from the
  reference into block 1.
\<close>

theorem emplace_back_own_element_counterexample:
  "outcome [0] [1, 2]
     (run (0::nat) (init 100)
        [Emplace_back 0 1, Emplace_back 0 2, Emplace_back 0 3, Emplace_back 0 4,
         Emplace_back 0 5, Emplace_back 0 6, Emplace_back 0 7, Emplace_back 0 8,
         Emplace_back 0 9, Emplace_back 0 10, Emplace_back 0 11, Emplace_back 0 12,
         Emplace_back 0 13, Emplace_back 0 14, Emplace_back 0 15, Emplace_back 0 16,
         Emplace_back_ref 0 0 0]) =
   Inl (OutOfBlock, [\<lparr>data_m = 2, size_m = 16, capacity_m = 32\<rparr>],
        [None,
         Some [Some 1, Some 2, Some 3, Some 4, Some 5, Some 6, Some 7, Some 8,
               Some 9, Some 10, Some 11, Some 12, Some 13, Some 14, Some 15, Some 16,
               None, None, None, None, None, None, None, None,
               None, None, None, None, None, None, None, None]], 2, 1)"
  by (simp add: ev)

text \<open>
  C7, amended. Take any sequence of \<open>emplace_back\<close> calls on an initially empty container
  of capacity 0 in which no call that finds \<open>size = capacity\<close> passes a reference to an
  element of the container itself: every argument is a value of its own, or a reference
  to a live element that holds the value at the call. With memory for the largest
  reallocation the calls return normally; afterwards \<open>size()\<close> is the number of calls,
  reading index \<open>i\<close> gives the \<open>i\<close>-th inserted value, and the capacity is the one of the
  growth schedule \<open>cap_after\<close>: 16 after the first insertion, doubled by every insertion
  that finds \<open>size = capacity\<close>. After 17 insertions the size is 17 and the capacity 32
  (see the instance that follows).
\<close>

theorem emplace_back_round_trip:
  assumes "holds s this [] 0" and "inserts d s this cs xs"
    and "2 * cap_after (length xs) \<le> avail s" and "avail s < 2 ^ 64"
  shows "\<exists>s'. run d s cs = Inr s' \<and>
           size_v s' this = length xs \<and>
           (\<forall>i<length xs. index_v s' this i = Inr (xs ! i)) \<and>
           capacity_m (vecs s' this) = cap_after (length xs)"
proof -
  have sched: "cap_from (length ([]::'a list)) 0 (length xs) = cap_after (length xs)"
    using cap_after_from [of 0 "length xs"] by simp
  have b1: "2 * cap_from (length ([]::'a list)) 0 (length xs) \<le> avail s + 0"
    unfolding sched using assms(3) by simp
  have b2: "avail s + 0 < 2 ^ 64"
    using assms(4) by simp
  from emplace_back_inserts [OF assms(1,2) b1 b2] obtain s' where
    r: "run d s cs = Inr s'"
    and h: "holds s' this xs (cap_after (length xs))"
    unfolding sched by auto
  from h have "size_v s' this = length xs" "capacity_m (vecs s' this) = cap_after (length xs)"
    by (simp_all add: holds_def size_v_def)
  moreover have "\<forall>i<length xs. index_v s' this i = Inr (xs ! i)"
    using holds_index [OF h] by blast
  ultimately show ?thesis using r by blast
qed

theorem emplace_back_round_trip_witness:
  "holds (init 100 :: nat state) 0 [] 0 \<and>
   inserts 0 (init 100 :: nat state) 0
     [Emplace_back 0 1, Emplace_back_ref 0 0 0, Emplace_back 0 3, Emplace_back 0 4,
      Emplace_back 0 5, Emplace_back 0 6, Emplace_back 0 7, Emplace_back 0 8,
      Emplace_back 0 9, Emplace_back 0 10, Emplace_back 0 11, Emplace_back 0 12,
      Emplace_back 0 13, Emplace_back 0 14, Emplace_back 0 15, Emplace_back 0 16,
      Emplace_back 0 17]
     [1, 1, 3, 4, 5, 6, 7, 8, 9, 10, 11, 12, 13, 14, 15, 16, 17] \<and>
   2 * cap_after (length [1, 1, 3, 4, 5, 6, 7, 8, 9, 10, 11, 12, 13, 14, 15, 16, 17 :: nat])
     \<le> avail (init 100 :: nat state) \<and>
   avail (init 100 :: nat state) < 2 ^ 64 \<and>
   (\<exists>s'. run 0 (init 100)
            [Emplace_back 0 1, Emplace_back_ref 0 0 0, Emplace_back 0 3, Emplace_back 0 4,
             Emplace_back 0 5, Emplace_back 0 6, Emplace_back 0 7, Emplace_back 0 8,
             Emplace_back 0 9, Emplace_back 0 10, Emplace_back 0 11, Emplace_back 0 12,
             Emplace_back 0 13, Emplace_back 0 14, Emplace_back 0 15, Emplace_back 0 16,
             Emplace_back 0 (17::nat)] = Inr s' \<and>
      size_v s' 0 = 17 \<and> index_v s' 0 0 = Inr 1 \<and> index_v s' 0 1 = Inr 1 \<and>
      index_v s' 0 16 = Inr 17 \<and> capacity_m (vecs s' 0) = 32)"
proof -
  let ?cs = "[Emplace_back 0 1, Emplace_back_ref 0 0 0, Emplace_back 0 3, Emplace_back 0 4,
      Emplace_back 0 5, Emplace_back 0 6, Emplace_back 0 7, Emplace_back 0 8,
      Emplace_back 0 9, Emplace_back 0 10, Emplace_back 0 11, Emplace_back 0 12,
      Emplace_back 0 13, Emplace_back 0 14, Emplace_back 0 15, Emplace_back 0 16,
      Emplace_back 0 (17::nat)]"
  let ?xs = "[1, 1, 3, 4, 5, 6, 7, 8, 9, 10, 11, 12, 13, 14, 15, 16, 17 :: nat]"
  have len: "length ?xs = 17" by simp
  have c17: "cap_after 17 = 32" by (simp add: eval_nat_numeral next_cap_def)
  have h: "holds (init 100 :: nat state) 0 [] 0" by (simp add: holds_def init_def)
  have ins: "inserts 0 (init 100 :: nat state) 0 ?cs ?xs"
    by (simp add: ev inserting_def readable_def)
  have a: "2 * cap_after (length ?xs) \<le> avail (init 100 :: nat state)"
    unfolding len c17 by (simp add: init_def)
  have b: "avail (init 100 :: nat state) < 2 ^ 64" by (simp add: init_def)
  from emplace_back_round_trip [OF h ins a b] obtain s' where
    r: "run 0 (init 100) ?cs = Inr s'"
    and sz: "size_v s' 0 = length ?xs"
    and ix: "\<forall>i<length ?xs. index_v s' 0 i = Inr (?xs ! i)"
    and cp: "capacity_m (vecs s' 0) = cap_after (length ?xs)"
    by blast
  from ix have "index_v s' 0 0 = Inr (?xs ! 0)" "index_v s' 0 1 = Inr (?xs ! 1)"
    "index_v s' 0 16 = Inr (?xs ! 16)"
    unfolding len by simp_all
  then have i0: "index_v s' 0 0 = Inr 1" and i1: "index_v s' 0 1 = Inr 1"
    and i16: "index_v s' 0 16 = Inr 17"
    by simp_all
  from sz cp have "size_v s' 0 = 17" "capacity_m (vecs s' 0) = 32"
    unfolding len c17 by simp_all
  with r i0 i1 i16 h ins a b show ?thesis by blast
qed

section \<open>Resizing\<close>

text \<open>
  On a valid container with elements \<open>xs\<close>, \<open>resize(n)\<close> returns normally (given memory
  for a reallocation when \<open>n\<close> exceeds the capacity) and sets the size to \<open>n\<close>. The
  elements afterwards are the first \<open>n\<close> elements of \<open>xs\<close>, followed by
  default-constructed values in the slots \<open>[size, n)\<close> when \<open>n > size\<close>; every slot from
  \<open>n\<close> on is raw storage, so exactly the elements in \<open>[n, size)\<close> were destroyed when
  \<open>n < size\<close>; the capacity is the larger of the old capacity and \<open>n\<close>. A following
  \<open>resize(m)\<close> with \<open>m < n\<close> leaves exactly the first \<open>m\<close> of those elements.
\<close>

lemma resize_on_valid:
  assumes "holds s this xs cap" and "cap < n \<longrightarrow> n \<le> avail s"
  shows "\<exists>s1. resize d s this n = Inr s1 \<and>
           size_v s1 this = n \<and>
           holds s1 this (take n xs @ replicate (n - length xs) d) (max cap n) \<and>
           (\<forall>m<n. \<exists>s2. resize d s1 this m = Inr s2 \<and>
              size_v s2 this = m \<and>
              holds s2 this (take m (take n xs @ replicate (n - length xs) d)) (max cap n))"
proof -
  let ?ys = "take n xs @ replicate (n - length xs) d"
  from resize_spec [OF assms, of d] obtain s1 where
    r1: "resize d s this n = Inr s1" and h1: "holds s1 this ?ys (max cap n)"
    by blast
  have len: "length ?ys = n" by simp
  from h1 have sz1: "size_v s1 this = n"
    by (simp add: holds_def size_v_def)
  have "\<exists>s2. resize d s1 this m = Inr s2 \<and> size_v s2 this = m \<and>
          holds s2 this (take m ?ys) (max cap n)" if "m < n" for m
  proof -
    from that have lt: "m < length ?ys" by (simp only: len)
    from resize_shrink [OF h1 lt, of d] obtain s2 where
      r2: "resize d s1 this m = Inr s2" and h2: "holds s2 this (take m ?ys) (max cap n)"
      by blast
    from h2 lt have "size_v s2 this = m"
      by (simp add: holds_def size_v_def del: take_append)
    with r2 h2 show ?thesis by blast
  qed
  with r1 sz1 h1 show ?thesis by blast
qed


text \<open>
  C8. \<open>resize(n)\<close> is to set the size to \<open>n\<close> on every container, and a moved-from
  container is to behave as an empty one. The move operations leave the source with a
  null \<open>_data\<close> and its old \<open>_capacity\<close>. After moving a vector of 2 elements away,
  \<open>resize(1)\<close> on the source finds \<open>1 \<le> _capacity\<close>, does not reserve, and constructs
  at \<open>nullptr\<close>. Likewise after \<open>reserve(2)\<close> on a vector of size 3 and capacity 16 has
  set \<open>_capacity = 3\<close>: \<open>resize(4)\<close> reallocates, and \<open>deallocate\<close> is called with size 3
  on the old block of 16 slots.
\<close>

theorem resize_on_moved_from:
  "outcome [0, 1] [1, 2]
     (run (7::nat) (init 100) [Sized_ctor 0 2, Move_ctor 1 0]) =
   Inr ([\<lparr>data_m = 0, size_m = 0, capacity_m = 2\<rparr>,
         \<lparr>data_m = 1, size_m = 2, capacity_m = 2\<rparr>],
        [Some [Some 7, Some 7], Some [None, None]], 2, 0) \<and>
   outcome [0, 1] [1, 2]
     (run (7::nat) (init 100) [Sized_ctor 0 2, Move_ctor 1 0, Resize 0 1]) =
   Inl (OutOfBlock,
        [\<lparr>data_m = 0, size_m = 0, capacity_m = 2\<rparr>,
         \<lparr>data_m = 1, size_m = 2, capacity_m = 2\<rparr>],
        [Some [Some 7, Some 7], Some [None, None]], 2, 0) \<and>
   outcome [0] [1, 2]
     (run (0::nat) (init 100)
        [Emplace_back 0 5, Emplace_back 0 6, Emplace_back 0 7, Reserve 0 2, Resize 0 4]) =
   Inl (BadFree, [\<lparr>data_m = 1, size_m = 3, capacity_m = 3\<rparr>],
        [Some [None, None, None, None, None, None, None, None,
               None, None, None, None, None, None, None, None],
         Some [Some 5, Some 6, Some 7, None]], 2, 0)"
  by (simp add: ev)

section \<open>No Region is shared\<close>

text \<open>
  C9. Take any set of vectors of which no two hold the same non-null Region handle (and
  whose handles were all handed out by the allocator). After any operation on vectors
  of that set (construction, copy or move construction, copy or move assignment,
  \<open>reserve\<close>, \<open>resize\<close>, \<open>emplace_back\<close>, element assignment, destruction), whether it
  returns or ends in an error, still no two of them hold the same non-null handle. And
  an assignment to an element of one vector leaves every element read through any
  other vector unchanged.
\<close>

theorem regions_never_shared:
  assumes "unshared ids s" and "set (objects c) \<subseteq> set ids"
  shows "unshared ids (state_of (exec d s c)) \<and>
         (\<forall>this i x s' b j.
            c = Assign_index this i x \<longrightarrow> exec d s c = Inr s' \<longrightarrow> b \<in> set ids \<longrightarrow> b \<noteq> this \<longrightarrow>
            index_v s' b j = index_v s b j)"
proof (intro conjI allI impI)
  show "unshared ids (state_of (exec d s c))"
    by (rule exec_unshared [OF assms])
next
  fix this i x s' b j
  assume c: "c = Assign_index this i x" and r: "exec d s c = Inr s'"
    and b: "b \<in> set ids" "b \<noteq> this"
  from c assms(2) have "this \<in> set ids" by simp
  moreover from c r have "assign_index s this i x = Inr s'" by simp
  ultimately show "index_v s' b j = index_v s b j"
    using assms(1) b by (intro assign_index_elsewhere [of ids s this b i x s' j]) auto
qed

theorem regions_never_shared_witness:
  "unshared [0, 1] (state_of (run (7::nat) (init 100) [Sized_ctor 0 2, Copy_ctor 1 0])) \<and>
   set (objects (Assign_index 0 1 (5::nat))) \<subseteq> set [0, 1] \<and>
   unshared [0, 1]
     (state_of (exec 7 (state_of (run (7::nat) (init 100) [Sized_ctor 0 2, Copy_ctor 1 0]))
        (Assign_index 0 1 5))) \<and>
   (\<exists>s'. exec 7 (state_of (run (7::nat) (init 100) [Sized_ctor 0 2, Copy_ctor 1 0]))
            (Assign_index 0 1 5) = Inr s' \<and>
      index_v s' 0 1 = Inr 5 \<and> index_v s' 1 1 = Inr 7)"
proof -
  define S where "S = state_of (run (7::nat) (init 100) [Sized_ctor 0 2, Copy_ctor 1 0])"
  have h1: "unshared [0, 1] S"
    unfolding S_def by (simp add: ev unshared_def)
  have h2: "set (objects (Assign_index 0 1 (5::nat))) \<subseteq> set [0, 1]"
    by simp
  have old: "index_v S 1 1 = Inr 7"
    unfolding S_def by (simp add: ev)
  have "\<exists>s'. exec 7 S (Assign_index 0 1 5) = Inr s' \<and> index_v s' 0 1 = Inr 5"
    unfolding S_def by (simp add: ev)
  then obtain s' where r: "exec 7 S (Assign_index 0 1 5) = Inr s'" and new: "index_v s' 0 1 = Inr 5"
    by blast
  from regions_never_shared [OF h1 h2, of 7] r have
    u: "unshared [0, 1] (state_of (exec 7 S (Assign_index 0 1 5)))"
    and "index_v s' 1 1 = index_v S 1 1"
    by auto
  with old have "index_v s' 1 1 = Inr 7" by simp
  with h1 h2 u r new show ?thesis
    unfolding S_def by blast
qed


end
